theory Spec2Isabelle
  imports Main
begin

section \<open>The reactive binding engine of main.cpp\<close>

text \<open>
  The program is a graph of heap objects that point at each other: a node lists its
  subscribers in \<open>m_refs\<close> (raw pointers), an expression node holds handles to its
  inputs in \<open>m_arguments\<close>. The model therefore has an explicit store. An address is an
  index into the store, a freed object is \<open>None\<close>, and a pointer that does not lead to a
  live object of the expected class is the error \<open>Dangling\<close>.

  The value type \<open>T\<close> of the templates is the type variable \<open>'v\<close>. Its \<open>operator!=\<close> and
  \<open>operator==\<close> are HOL's disequality and equality, as they are for \<open>int\<close>, the
  instantiation the program uses; the value-initialised \<open>T{}\<close> is \<open>0\<close>.
\<close>

subsection \<open>Data\<close>

type_synonym addr = nat

datatype BindingCompPolicy = Comp_NotEqual | Comp_Equal | Comp_Always | Comp_Count

datatype BindingEvalPolicy = Eval_Instant | Eval_Lazy | Eval_Count

text \<open>The members that \<open>TypedBindedExpr\<close> adds to \<open>TypedBinding\<close>. The function takes the
  list of its positional arguments.\<close>

record 'v TypedBindedExpr =
  m_eval_policy :: BindingEvalPolicy
  m_function :: "'v list \<Rightarrow> 'v"
  m_arguments :: "addr list"
  m_dirty :: bool

text \<open>An object of class \<open>TypedBinding\<close> or of one of its subclasses. The field \<open>derived\<close>
  is the dynamic type: \<open>None\<close> for a \<open>TypedBinding\<close> or \<open>TypedBindedValue\<close> (which adds no
  member), the added members for a \<open>TypedBindedExpr\<close>.\<close>

record 'v TypedBinding =
  m_value :: 'v
  m_comp_policy :: BindingCompPolicy
  m_refs :: "addr list"
  derived :: "'v TypedBindedExpr option"

text \<open>What the program does that is not a change of the store is kept in a history: each
  entry of a virtual \<open>get\<close>, of \<open>set\<close> and of \<open>update\<close>, and each call of a node's stored
  function. The history is ghost state; no function reads it.\<close>

datatype 'v event =
  Ev_get addr
  | Ev_set addr 'v
  | Ev_update addr
  | Ev_function addr "'v list"

record 'v state =
  heap :: "'v TypedBinding option list"
  log :: "'v event list"

datatype error = OutOfFuel | Dangling addr

definition lookup :: "'v state \<Rightarrow> addr \<Rightarrow> 'v TypedBinding option" where
  "lookup s p = (if p < length (heap s) then heap s ! p else None)"

definition store :: "addr \<Rightarrow> 'v TypedBinding \<Rightarrow> 'v state \<Rightarrow> 'v state" where
  "store p n s = s\<lparr>heap := (heap s)[p := Some n]\<rparr>"

definition record_event :: "'v event \<Rightarrow> 'v state \<Rightarrow> 'v state" where
  "record_event ev s = s\<lparr>log := log s @ [ev]\<rparr>"

subsection \<open>TypedBinding\<close>

text \<open>\<open>different_with\<close>, lines 56 to 75: the switch on the comparison policy.
  \<open>different_with_by\<close> is the template, over the \<open>operator!=\<close> and the \<open>operator==\<close> of
  \<open>T\<close>; \<open>different_with\<close> is its instance for a \<open>T\<close> whose two operators are disequality
  and equality, as for \<open>int\<close>.\<close>

definition different_with_by ::
  "('v \<Rightarrow> 'v \<Rightarrow> bool) \<Rightarrow> ('v \<Rightarrow> 'v \<Rightarrow> bool) \<Rightarrow> 'v TypedBinding \<Rightarrow> 'v \<Rightarrow> bool" where
  "different_with_by op_ne op_eq n other =
     (case m_comp_policy n of
        Comp_NotEqual \<Rightarrow> op_ne (m_value n) other
      | Comp_Equal \<Rightarrow> \<not> op_eq (m_value n) other
      | Comp_Always \<Rightarrow> True
      | Comp_Count \<Rightarrow> True)"

definition different_with :: "'v TypedBinding \<Rightarrow> 'v \<Rightarrow> bool" where
  "different_with n other = different_with_by (\<lambda>a b. a \<noteq> b) (\<lambda>a b. a = b) n other"

text \<open>\<open>TypedBinding::get\<close>, lines 39 to 42.\<close>

definition TypedBinding_get :: "addr \<Rightarrow> 'v state \<Rightarrow> error + ('v state \<times> 'v)" where
  "TypedBinding_get p s =
     (case lookup s p of None \<Rightarrow> Inl (Dangling p) | Some n \<Rightarrow> Inr (s, m_value n))"

text \<open>The assignments \<open>m_dirty = b\<close> of a \<open>TypedBindedExpr\<close>.\<close>

definition assign_dirty :: "addr \<Rightarrow> bool \<Rightarrow> 'v state \<Rightarrow> error + 'v state" where
  "assign_dirty p b s =
     (case lookup s p of
        None \<Rightarrow> Inl (Dangling p)
      | Some n \<Rightarrow>
          (case derived n of
             None \<Rightarrow> Inl (Dangling p)
           | Some e \<Rightarrow> Inr (store p (n\<lparr>derived := Some (e\<lparr>m_dirty := b\<rparr>)\<rparr>) s)))"

subsection \<open>get, set, update and dispatch\<close>

text \<open>
  The four member functions call each other through the pointers of the store, and on a
  store with a cycle they recurse without end. The first argument bounds the depth of
  nested calls of \<open>get\<close>, \<open>set\<close> and \<open>update\<close>; when it is used up the result is
  \<open>OutOfFuel\<close>.

  \<^item> \<open>get\<close> is the virtual \<open>get\<close>: \<open>TypedBinding::get\<close> on an object without the derived
    members, \<open>TypedBindedExpr::get\<close> (lines 140 to 148) on an expression.
  \<^item> \<open>set_binding\<close> is \<open>TypedBinding::set\<close> (lines 44 to 54); \<open>notify\<close> is its loop over
    \<open>m_refs\<close>.
  \<^item> \<open>update\<close> is the virtual \<open>update\<close>: the empty \<open>Binding::update\<close> on an object
    without the derived members, \<open>TypedBindedExpr::update\<close> (lines 150 to 168) on an
    expression.
  \<^item> \<open>dispatch\<close> (lines 170 to 192) reads one more input with each call of the template
    overload, appends its value to the arguments collected so far, and calls
    \<open>m_function\<close> when no input is left. Its third argument is the inputs not yet read.

  The loop of \<open>set\<close> walks the list \<open>m_refs\<close> as read at its start, and \<open>dispatch\<close> the
  list \<open>m_arguments\<close> as read at its start. None of the five functions changes an
  \<open>m_refs\<close> or an \<open>m_arguments\<close> (lemma \<open>effect_steps\<close> below), so these are the lists
  the program walks.
\<close>

fun get :: "nat \<Rightarrow> addr \<Rightarrow> 'v state \<Rightarrow> error + ('v state \<times> 'v)"
  and set_binding :: "nat \<Rightarrow> addr \<Rightarrow> 'v \<Rightarrow> 'v state \<Rightarrow> error + 'v state"
  and notify :: "nat \<Rightarrow> addr list \<Rightarrow> 'v state \<Rightarrow> error + 'v state"
  and update :: "nat \<Rightarrow> addr \<Rightarrow> 'v state \<Rightarrow> error + 'v state"
  and dispatch :: "nat \<Rightarrow> addr \<Rightarrow> addr list \<Rightarrow> 'v list \<Rightarrow> 'v state \<Rightarrow> error + ('v state \<times> 'v)"
where
  "get 0 p s = Inl OutOfFuel"
| "get (Suc k) p s =
     (case lookup s p of
        None \<Rightarrow> Inl (Dangling p)
      | Some n \<Rightarrow>
          (case derived n of
             None \<Rightarrow> TypedBinding_get p (record_event (Ev_get p) s)
           | Some e \<Rightarrow>
               if m_dirty e then
                 (case dispatch k p (m_arguments e) [] (record_event (Ev_get p) s) of
                    Inl err \<Rightarrow> Inl err
                  | Inr (s1, v) \<Rightarrow>
                      (case set_binding k p v s1 of
                         Inl err \<Rightarrow> Inl err
                       | Inr s2 \<Rightarrow>
                           (case assign_dirty p False s2 of
                              Inl err \<Rightarrow> Inl err
                            | Inr s3 \<Rightarrow> TypedBinding_get p s3)))
               else TypedBinding_get p (record_event (Ev_get p) s)))"
| "set_binding 0 p v s = Inl OutOfFuel"
| "set_binding (Suc k) p v s =
     (case lookup s p of
        None \<Rightarrow> Inl (Dangling p)
      | Some n \<Rightarrow>
          if different_with n v
          then notify k (m_refs n) (store p (n\<lparr>m_value := v\<rparr>) (record_event (Ev_set p v) s))
          else Inr (record_event (Ev_set p v) s))"
| "notify k [] s = Inr s"
| "notify k (r # rs) s =
     (case update k r s of
        Inl err \<Rightarrow> Inl err
      | Inr s' \<Rightarrow> notify k rs s')"
| "update 0 p s = Inl OutOfFuel"
| "update (Suc k) p s =
     (case lookup s p of
        None \<Rightarrow> Inl (Dangling p)
      | Some n \<Rightarrow>
          (case derived n of
             None \<Rightarrow> Inr (record_event (Ev_update p) s)
           | Some e \<Rightarrow>
               (case m_eval_policy e of
                  Eval_Instant \<Rightarrow>
                    (case dispatch k p (m_arguments e) [] (record_event (Ev_update p) s) of
                       Inl err \<Rightarrow> Inl err
                     | Inr (s1, v) \<Rightarrow> set_binding k p v s1)
                | Eval_Lazy \<Rightarrow> assign_dirty p True (record_event (Ev_update p) s)
                | Eval_Count \<Rightarrow> Inr (record_event (Ev_update p) s))))"
| "dispatch k p (a # rest) args s =
     (case get k a s of
        Inl err \<Rightarrow> Inl err
      | Inr (s', v) \<Rightarrow> dispatch k p rest (args @ [v]) s')"
| "dispatch k p [] args s =
     (case lookup s p of
        None \<Rightarrow> Inl (Dangling p)
      | Some n \<Rightarrow>
          (case derived n of
             None \<Rightarrow> Inl (Dangling p)
           | Some e \<Rightarrow> Inr (record_event (Ev_function p args) s, m_function e args)))"

subsection \<open>Construction\<close>

text \<open>\<open>new\<close> takes the next free address of the store for the object.\<close>

definition alloc :: "'v TypedBinding \<Rightarrow> 'v state \<Rightarrow> 'v state \<times> addr" where
  "alloc n s = (s\<lparr>heap := heap s @ [Some n]\<rparr>, length (heap s))"

text \<open>\<open>TypedBindedValue(T value)\<close>, lines 90 to 93, on an object whose members have
  their default initialisers (lines 35 to 37).\<close>

definition new_TypedBindedValue :: "nat \<Rightarrow> 'v::zero \<Rightarrow> 'v state \<Rightarrow> error + ('v state \<times> addr)" where
  "new_TypedBindedValue k val s =
     (case alloc \<lparr>m_value = 0, m_comp_policy = Comp_NotEqual, m_refs = [], derived = None\<rparr> s of
        (s0, this) \<Rightarrow>
          (case set_binding k this val s0 of
             Inl err \<Rightarrow> Inl err
           | Inr s1 \<Rightarrow> Inr (s1, this)))"

text \<open>\<open>install_ref\<close> and \<open>uninstall_ref\<close>, lines 194 to 204: \<open>push_back(this)\<close> and
  \<open>remove_if\<close> of the entries equal to \<open>this\<close>.\<close>

definition install_ref :: "addr \<Rightarrow> addr \<Rightarrow> 'v state \<Rightarrow> error + 'v state" where
  "install_ref this arg s =
     (case lookup s arg of
        None \<Rightarrow> Inl (Dangling arg)
      | Some n \<Rightarrow> Inr (store arg (n\<lparr>m_refs := m_refs n @ [this]\<rparr>) s))"

definition uninstall_ref :: "addr \<Rightarrow> addr \<Rightarrow> 'v state \<Rightarrow> error + 'v state" where
  "uninstall_ref this arg s =
     (case lookup s arg of
        None \<Rightarrow> Inl (Dangling arg)
      | Some n \<Rightarrow> Inr (store arg (n\<lparr>m_refs := filter (\<lambda>ref. \<not> (ref = this)) (m_refs n)\<rparr>) s))"

text \<open>\<open>process_refs\<close>, lines 206 to 216. The third argument is the inputs from position
  \<open>N\<close> on.\<close>

fun process_refs :: "bool \<Rightarrow> addr \<Rightarrow> addr list \<Rightarrow> 'v state \<Rightarrow> error + 'v state" where
  "process_refs Install this [] s = Inr s"
| "process_refs Install this (arg # rest) s =
     (case (if Install then install_ref this arg s else uninstall_ref this arg s) of
        Inl err \<Rightarrow> Inl err
      | Inr s' \<Rightarrow> process_refs Install this rest s')"

definition read_eval_policy :: "addr \<Rightarrow> 'v state \<Rightarrow> error + BindingEvalPolicy" where
  "read_eval_policy p s =
     (case lookup s p of
        None \<Rightarrow> Inl (Dangling p)
      | Some n \<Rightarrow>
          (case derived n of
             None \<Rightarrow> Inl (Dangling p)
           | Some e \<Rightarrow> Inr (m_eval_policy e)))"

text \<open>The constructor of \<open>TypedBindedExpr\<close>, lines 126 to 133, on an object whose members
  have their default initialisers (lines 35 to 37, 121 and 124).\<close>

definition new_TypedBindedExpr ::
  "nat \<Rightarrow> ('v::zero list \<Rightarrow> 'v) \<Rightarrow> addr list \<Rightarrow> 'v state \<Rightarrow> error + ('v state \<times> addr)" where
  "new_TypedBindedExpr k function arguments s =
     (case alloc \<lparr>m_value = 0, m_comp_policy = Comp_NotEqual, m_refs = [],
                  derived = Some \<lparr>m_eval_policy = Eval_Instant, m_function = function,
                                  m_arguments = arguments, m_dirty = False\<rparr>\<rparr> s of
        (s0, this) \<Rightarrow>
          (case read_eval_policy this s0 of
             Inl err \<Rightarrow> Inl err
           | Inr pol \<Rightarrow>
               (case assign_dirty this (pol = Eval_Instant) s0 of
                  Inl err \<Rightarrow> Inl err
                | Inr s1 \<Rightarrow>
                    (case process_refs True this arguments s1 of
                       Inl err \<Rightarrow> Inl err
                     | Inr s2 \<Rightarrow>
                         (case update k this s2 of
                            Inl err \<Rightarrow> Inl err
                          | Inr s3 \<Rightarrow> Inr (s3, this))))))"

text \<open>The assignment \<open>pe->m_eval_policy = policy\<close> of line 261.\<close>

definition assign_eval_policy :: "addr \<Rightarrow> BindingEvalPolicy \<Rightarrow> 'v state \<Rightarrow> error + 'v state" where
  "assign_eval_policy p policy s =
     (case lookup s p of
        None \<Rightarrow> Inl (Dangling p)
      | Some n \<Rightarrow>
          (case derived n of
             None \<Rightarrow> Inl (Dangling p)
           | Some e \<Rightarrow> Inr (store p (n\<lparr>derived := Some (e\<lparr>m_eval_policy := policy\<rparr>)\<rparr>) s)))"

text \<open>\<open>operator+\<close>, lines 238 to 243: an expression over \<open>std::plus\<close> and the two
  operands.\<close>

definition std_plus :: "'v::plus list \<Rightarrow> 'v" where
  "std_plus args = (case args of [lhs, rhs] \<Rightarrow> lhs + rhs | _ \<Rightarrow> undefined)"

definition operator_plus ::
  "nat \<Rightarrow> addr \<Rightarrow> addr \<Rightarrow> 'v::{zero,plus} state \<Rightarrow> error + ('v state \<times> addr)" where
  "operator_plus k lhs rhs s = new_TypedBindedExpr k std_plus [lhs, rhs] s"

text \<open>The store before the first object is made.\<close>

definition empty_state :: "'v state" where
  "empty_state = \<lparr>heap = [], log = []\<rparr>"

text \<open>The direct reads \<open>e->m_value\<close> and \<open>pe->m_dirty\<close> of line 264; \<open>is_dirty\<close> is
  false where there is no expression.\<close>

definition read_m_value :: "addr \<Rightarrow> 'v state \<Rightarrow> 'v option" where
  "read_m_value p s = map_option m_value (lookup s p)"

definition is_dirty :: "'v state \<Rightarrow> addr \<Rightarrow> bool" where
  "is_dirty s p =
     (case lookup s p of
        None \<Rightarrow> False
      | Some n \<Rightarrow> (case derived n of None \<Rightarrow> False | Some e \<Rightarrow> m_dirty e))"

subsection \<open>The blocks of main\<close>

definition bind_result :: "error + 'a \<Rightarrow> ('a \<Rightarrow> error + 'b) \<Rightarrow> error + 'b" where
  "bind_result r f = (case r of Inl err \<Rightarrow> Inl err | Inr x \<Rightarrow> f x)"

text \<open>Lines 251 and 252, and the same lines 258 and 259: \<open>a = 1\<close>, \<open>b = 2\<close>,
  \<open>e = a + b\<close>. The result is the store and the address of \<open>e\<close>; \<open>a\<close> and \<open>b\<close> are at
  addresses 0 and 1.\<close>

definition construct_sum :: "nat \<Rightarrow> error + (int state \<times> addr)" where
  "construct_sum k =
     bind_result (new_TypedBindedValue k 1 empty_state) (\<lambda>(s, a).
     bind_result (new_TypedBindedValue k 2 s) (\<lambda>(s, b).
     operator_plus k a b s))"

text \<open>The second block of main, lines 258 to 265: the policy of \<open>e\<close> becomes \<open>Lazy\<close>,
  \<open>e\<close> is read, \<open>a = 3\<close>, \<open>m_value\<close> and \<open>m_dirty\<close> of \<open>e\<close> are read, \<open>e\<close> is read
  again. The result is what is printed for \<open>e\<close>, and \<open>m_dirty\<close> at the end. The reads of
  \<open>a\<close> and \<open>b\<close> for printing change no object and are left out.\<close>

definition main_block2 :: "nat \<Rightarrow> error + (int \<times> int option \<times> bool \<times> int \<times> bool)" where
  "main_block2 k =
     bind_result (construct_sum k) (\<lambda>(s, e).
     bind_result (assign_eval_policy e Eval_Lazy s) (\<lambda>s.
     bind_result (get k e s) (\<lambda>(s, first).
     bind_result (set_binding k 0 3 s) (\<lambda>s.
     bind_result (get k e s) (\<lambda>(s', second).
     Inr (first, read_m_value e s, is_dirty s e, second, is_dirty s' e))))))"

text \<open>The same scenario in the order of the specification: \<open>e\<close> is read first, and then
  its policy becomes \<open>Lazy\<close>.\<close>

definition lazy_coalescing :: "nat \<Rightarrow> error + (int \<times> int option \<times> bool \<times> int \<times> bool)" where
  "lazy_coalescing k =
     bind_result (construct_sum k) (\<lambda>(s, e).
     bind_result (get k e s) (\<lambda>(s, first).
     bind_result (assign_eval_policy e Eval_Lazy s) (\<lambda>s.
     bind_result (set_binding k 0 3 s) (\<lambda>s.
     bind_result (get k e s) (\<lambda>(s', second).
     Inr (first, read_m_value e s, is_dirty s e, second, is_dirty s' e))))))"

text \<open>The third block of main, lines 268 to 272: \<open>a = 1\<close>, \<open>b = 2\<close>, \<open>c = 3\<close>,
  \<open>e = (a + b) + (a + c)\<close>, \<open>e\<close> is read, \<open>a = 5\<close>, \<open>e\<close> is read again. C++ leaves open
  which operand of the outer \<open>+\<close> is built first; \<open>left_first\<close> chooses.\<close>

definition main_block3 :: "nat \<Rightarrow> bool \<Rightarrow> error + (int \<times> int)" where
  "main_block3 k left_first =
     bind_result (new_TypedBindedValue k 1 empty_state) (\<lambda>(s, a).
     bind_result (new_TypedBindedValue k 2 s) (\<lambda>(s, b).
     bind_result (new_TypedBindedValue k 3 s) (\<lambda>(s, c).
     bind_result
       (if left_first
        then bind_result (operator_plus k a b s) (\<lambda>(s, ab).
             bind_result (operator_plus k a c s) (\<lambda>(s, ac). Inr (s, ab, ac)))
        else bind_result (operator_plus k a c s) (\<lambda>(s, ac).
             bind_result (operator_plus k a b s) (\<lambda>(s, ab). Inr (s, ab, ac))))
       (\<lambda>(s, ab, ac).
     bind_result (operator_plus k ab ac s) (\<lambda>(s, e).
     bind_result (get k e s) (\<lambda>(s, first).
     bind_result (set_binding k a 5 s) (\<lambda>s.
     bind_result (get k e s) (\<lambda>(s, second).
     Inr (first, second)))))))))"

text \<open>The stores of the first two blocks: \<open>a\<close> with value \<open>va\<close> at address 0, \<open>b = 2\<close> at
  address 1, and at address 2 the expression \<open>e = a + b\<close> with its cached value, its
  evaluation policy and its dirty flag.\<close>

definition leaf_node :: "int \<Rightarrow> addr list \<Rightarrow> int TypedBinding" where
  "leaf_node v refs = \<lparr>m_value = v, m_comp_policy = Comp_NotEqual, m_refs = refs, derived = None\<rparr>"

definition sum_node :: "int \<Rightarrow> BindingEvalPolicy \<Rightarrow> bool \<Rightarrow> int TypedBinding" where
  "sum_node v policy dirty =
     \<lparr>m_value = v, m_comp_policy = Comp_NotEqual, m_refs = [],
      derived = Some \<lparr>m_eval_policy = policy, m_function = std_plus,
                      m_arguments = [0, 1], m_dirty = dirty\<rparr>\<rparr>"

definition sum_state :: "int \<Rightarrow> int \<Rightarrow> BindingEvalPolicy \<Rightarrow> bool \<Rightarrow> int event list \<Rightarrow> int state" where
  "sum_state va ve policy dirty history =
     \<lparr>heap = [Some (leaf_node va [2]), Some (leaf_node 2 [2]), Some (sum_node ve policy dirty)],
      log = history\<rparr>"

text \<open>The store that \<open>construct_sum\<close> leaves.\<close>

definition sum_constructed :: "int state" where
  "sum_constructed =
     sum_state 1 3 Eval_Instant True
       [Ev_set 0 1, Ev_set 1 2, Ev_update 2, Ev_get 0, Ev_get 1, Ev_function 2 [1, 2],
        Ev_set 2 3]"

text \<open>The store before \<open>e\<close> is made.\<close>

definition two_leaves :: "int state" where
  "two_leaves = \<lparr>heap = [Some (leaf_node 1 []), Some (leaf_node 2 [])],
                 log = [Ev_set 0 1, Ev_set 1 2]\<rparr>"

subsection \<open>What a call may touch\<close>

text \<open>\<open>same_wiring s s'\<close>: the two stores have the same objects at the same addresses,
  with the same policies, subscribers, functions and inputs. Only \<open>m_value\<close>, \<open>m_dirty\<close>
  and the history may differ.\<close>

definition same_wiring_node :: "'v TypedBinding \<Rightarrow> 'v TypedBinding \<Rightarrow> bool" where
  "same_wiring_node n n' =
     (m_comp_policy n' = m_comp_policy n \<and> m_refs n' = m_refs n
      \<and> rel_option (\<lambda>e e'. m_eval_policy e' = m_eval_policy e \<and> m_function e' = m_function e
                            \<and> m_arguments e' = m_arguments e) (derived n) (derived n'))"

definition same_wiring :: "'v state \<Rightarrow> 'v state \<Rightarrow> bool" where
  "same_wiring s s' = list_all2 (rel_option same_wiring_node) (heap s) (heap s')"

text \<open>\<open>r\<close> is in the subscriber list of some object; \<open>a\<close> is an input of some
  expression.\<close>

definition is_subscriber :: "'v state \<Rightarrow> addr \<Rightarrow> bool" where
  "is_subscriber s r =
     list_ex (\<lambda>obj. case obj of None \<Rightarrow> False | Some n \<Rightarrow> r \<in> set (m_refs n)) (heap s)"

definition is_input :: "'v state \<Rightarrow> addr \<Rightarrow> bool" where
  "is_input s a =
     list_ex (\<lambda>obj. case obj of None \<Rightarrow> False
                | Some n \<Rightarrow> (case derived n of None \<Rightarrow> False | Some e \<Rightarrow> a \<in> set (m_arguments e)))
       (heap s)"

text \<open>\<open>p\<close> is in the subscriber list of no object but the ones at \<open>inputs\<close>.\<close>

definition subscribed_only_to :: "'v state \<Rightarrow> addr \<Rightarrow> addr list \<Rightarrow> bool" where
  "subscribed_only_to s p inputs =
     list_all (\<lambda>q. case heap s ! q of None \<Rightarrow> True
                 | Some n \<Rightarrow> p \<in> set (m_refs n) \<longrightarrow> q \<in> set inputs)
       [0..<length (heap s)]"

text \<open>\<open>effect U G s l s'\<close>: from \<open>s\<close> to \<open>s'\<close> the history has grown by \<open>l\<close>, the wiring is
  the same, \<open>update\<close> was entered only on \<open>U\<close> and on subscribers, the virtual \<open>get\<close> only
  on \<open>G\<close> and on inputs, a dirty flag was cleared only where \<open>get\<close> was entered, and an
  \<open>m_value\<close> was changed only where \<open>set\<close> was entered.\<close>

definition effect :: "addr set \<Rightarrow> addr set \<Rightarrow> 'v state \<Rightarrow> 'v event list \<Rightarrow> 'v state \<Rightarrow> bool" where
  "effect U G s l s' =
     (log s' = log s @ l \<and> same_wiring s s'
      \<and> (\<forall>r. Ev_update r \<in> set l \<longrightarrow> r \<in> U \<or> is_subscriber s r)
      \<and> (\<forall>a. Ev_get a \<in> set l \<longrightarrow> a \<in> G \<or> is_input s a)
      \<and> (\<forall>p. is_dirty s p \<longrightarrow> is_dirty s' p \<or> Ev_get p \<in> set l)
      \<and> (\<forall>p. (\<forall>x. Ev_set p x \<notin> set l) \<longrightarrow> read_m_value p s' = read_m_value p s))"


text \<open>\<open>reach A s x\<close>: \<open>x\<close> is in \<open>A\<close>, or a subscriber of some object, or an input of some
  expression.\<close>

definition reach :: "addr set \<Rightarrow> 'v state \<Rightarrow> addr \<Rightarrow> bool" where
  "reach A s x = (x \<in> A \<or> is_subscriber s x \<or> is_input s x)"

subsection \<open>Releasing a handle\<close>

text \<open>
  The objects are owned through \<open>shared_ptr\<close> handles: the ones the program holds in its
  variables and the ones the expressions hold in \<open>m_arguments\<close>. An object lives until
  its last handle is released. The counts are not stored: when a handle to \<open>h\<close> is
  released, \<open>h\<close> has another handle exactly when the program holds one (\<open>holders\<close>),
  or a live expression has \<open>h\<close> as an input, or an object under destruction still has
  one to release (\<open>pending\<close>).

  \<open>release k holders pending s\<close> releases the handles \<open>pending\<close>, first to last. When
  the handle released was the last one to \<open>h\<close>, \<open>h\<close> is destroyed: for an expression
  the destructor body runs (lines 135 to 138, \<open>process_refs<false, 0>\<close>), then the
  object is gone and its members with it, so that the handles in \<open>m_arguments\<close> are
  released in turn, before the rest of \<open>pending\<close>; a leaf has an empty destructor. C++
  leaves open in which order the handles of the tuple are released; they are released
  here first to last. \<open>k\<close> bounds the number of objects destroyed.
\<close>

definition deallocate :: "addr \<Rightarrow> 'v state \<Rightarrow> 'v state" where
  "deallocate p s = s\<lparr>heap := (heap s)[p := None]\<rparr>"

fun release :: "nat \<Rightarrow> addr list \<Rightarrow> addr list \<Rightarrow> 'v state \<Rightarrow> error + 'v state" where
  "release k holders [] s = Inr s"
| "release k holders (h # pending) s =
     (if h \<in> set holders \<or> h \<in> set pending \<or> is_input s h
      then release k holders pending s
      else
        (case k of
           0 \<Rightarrow> Inl OutOfFuel
         | Suc j \<Rightarrow>
             (case lookup s h of
                None \<Rightarrow> Inl (Dangling h)
              | Some n \<Rightarrow>
                  (case derived n of
                     None \<Rightarrow> release j holders pending (deallocate h s)
                   | Some e \<Rightarrow>
                       (case process_refs False h (m_arguments e) s of
                          Inl err \<Rightarrow> Inl err
                        | Inr s' \<Rightarrow>
                            release j holders (m_arguments e @ pending) (deallocate h s'))))))"

text \<open>\<open>wired s\<close>: every entry of every subscriber list is a live expression that has
  the listing object as an input. \<open>handles_live s\<close>: every input of every live
  expression is a live object.\<close>

definition wired :: "'v state \<Rightarrow> bool" where
  "wired s =
     list_all
       (\<lambda>q. case heap s ! q of
               None \<Rightarrow> True
             | Some n \<Rightarrow>
                 list_all
                   (\<lambda>r. case lookup s r of
                           None \<Rightarrow> False
                         | Some nr \<Rightarrow>
                             (case derived nr of
                                None \<Rightarrow> False
                              | Some er \<Rightarrow> q \<in> set (m_arguments er)))
                   (m_refs n))
       [0..<length (heap s)]"

definition handles_live :: "'v state \<Rightarrow> bool" where
  "handles_live s =
     list_all
       (\<lambda>obj. case obj of
                 None \<Rightarrow> True
               | Some n \<Rightarrow>
                   (case derived n of
                      None \<Rightarrow> True
                    | Some e \<Rightarrow> list_all (\<lambda>a. \<not> (lookup s a = None)) (m_arguments e)))
       (heap s)"

text \<open>\<open>released holders s s'\<close>: what a release of handles does to the store. The two
  invariants hold after it, the history and the size of the store are the same, nothing
  comes to life, what the program holds is not destroyed, and an object that is left
  differs only in its subscriber list, which has lost the entries of the destroyed
  objects.\<close>

definition released :: "addr list \<Rightarrow> 'v state \<Rightarrow> 'v state \<Rightarrow> bool" where
  "released holders s s' =
     (wired s' \<and> handles_live s' \<and> log s' = log s \<and> length (heap s') = length (heap s)
      \<and> (\<forall>x. lookup s x = None \<longrightarrow> lookup s' x = None)
      \<and> (\<forall>x\<in>set holders. lookup s' x = None \<longrightarrow> lookup s x = None)
      \<and> (\<forall>x n'. lookup s' x = Some n' \<longrightarrow>
            (\<exists>n. lookup s x = Some n
               \<and> n' = n\<lparr>m_refs := filter (\<lambda>r. \<not> (lookup s' r = None)) (m_refs n)\<rparr>)))"

text \<open>The number of live objects.\<close>

definition live_count :: "'v state \<Rightarrow> nat" where
  "live_count s = card {x. \<not> (lookup s x = None)}"

text \<open>\<open>leaf_holds s p v\<close>: at \<open>p\<close> there is a live object that is no expression, and its
  \<open>m_value\<close> is \<open>v\<close>.\<close>

definition leaf_holds :: "'v state \<Rightarrow> addr \<Rightarrow> 'v \<Rightarrow> bool" where
  "leaf_holds s p v =
     (case lookup s p of None \<Rightarrow> False | Some n \<Rightarrow> derived n = None \<and> m_value n = v)"

subsection \<open>More scenarios\<close>

text \<open>An expression under \<open>Instant\<close> over an input under \<open>Lazy\<close>: \<open>a = 1\<close>, \<open>b = 2\<close>,
  \<open>x = a + b\<close> is read and made \<open>Lazy\<close>, \<open>y = x + b\<close> is read, then \<open>a = 3\<close>. The result
  is whether \<open>y\<close> is under \<open>Instant\<close>, its dirty flag, what \<open>get\<close> on \<open>y\<close> returns, and
  what \<open>get\<close> on its inputs \<open>x\<close> and \<open>b\<close> returns right after.\<close>

definition stale_read :: "nat \<Rightarrow> error + (bool \<times> bool \<times> int \<times> int \<times> int)" where
  "stale_read k =
     bind_result (new_TypedBindedValue k 1 empty_state) (\<lambda>(s, a).
     bind_result (new_TypedBindedValue k 2 s) (\<lambda>(s, b).
     bind_result (operator_plus k a b s) (\<lambda>(s, x).
     bind_result (get k x s) (\<lambda>(s, x0).
     bind_result (assign_eval_policy x Eval_Lazy s) (\<lambda>s.
     bind_result (operator_plus k x b s) (\<lambda>(s, y).
     bind_result (get k y s) (\<lambda>(s, y0).
     bind_result (set_binding k a 3 s) (\<lambda>s.
     bind_result (get k y s) (\<lambda>(s1, y_read).
     bind_result (get k x s1) (\<lambda>(s2, x_read).
     bind_result (get k b s2) (\<lambda>(s3, b_read).
     Inr (read_eval_policy y s = Inr Eval_Instant, is_dirty s y,
          y_read, x_read, b_read))))))))))))"

text \<open>The store of \<open>sum_state\<close> with the comparison policy of \<open>a\<close> as given.\<close>

definition sum_state_policy ::
  "BindingCompPolicy \<Rightarrow> int \<Rightarrow> int \<Rightarrow> bool \<Rightarrow> int event list \<Rightarrow> int state" where
  "sum_state_policy policy va ve dirty history =
     \<lparr>heap = [Some ((leaf_node va [2])\<lparr>m_comp_policy := policy\<rparr>), Some (leaf_node 2 [2]),
              Some (sum_node ve Eval_Instant dirty)],
      log = history\<rparr>"

text \<open>The store of the third block of main after \<open>e\<close> is made, left operand first: the
  leaves \<open>a\<close>, \<open>b\<close>, \<open>c\<close> at 0, 1, 2, the sums \<open>a + b\<close> at 3 and \<open>a + c\<close> at 4, and \<open>e\<close> at
  5. The history is left empty.\<close>

definition plus_node :: "int \<Rightarrow> addr list \<Rightarrow> addr list \<Rightarrow> bool \<Rightarrow> int TypedBinding" where
  "plus_node v refs inputs dirty =
     \<lparr>m_value = v, m_comp_policy = Comp_NotEqual, m_refs = refs,
      derived = Some \<lparr>m_eval_policy = Eval_Instant, m_function = std_plus,
                      m_arguments = inputs, m_dirty = dirty\<rparr>\<rparr>"

definition construct_diamond :: "nat \<Rightarrow> error + int TypedBinding option list" where
  "construct_diamond k =
     bind_result (new_TypedBindedValue k 1 empty_state) (\<lambda>(s, a).
     bind_result (new_TypedBindedValue k 2 s) (\<lambda>(s, b).
     bind_result (new_TypedBindedValue k 3 s) (\<lambda>(s, c).
     bind_result (operator_plus k a b s) (\<lambda>(s, ab).
     bind_result (operator_plus k a c s) (\<lambda>(s, ac).
     bind_result (operator_plus k ab ac s) (\<lambda>(s, e).
     Inr (heap s)))))))"

definition diamond_state :: "int state" where
  "diamond_state =
     \<lparr>heap = [Some (leaf_node 1 [3, 4]), Some (leaf_node 2 [3]), Some (leaf_node 3 [4]),
              Some (plus_node 3 [5] [0, 1] False), Some (plus_node 4 [5] [0, 2] False),
              Some (plus_node 7 [] [3, 4] True)],
      log = []\<rparr>"

section \<open>Lemmas\<close>

subsection \<open>The store\<close>

lemma lookup_record_event [simp]: "lookup (record_event ev s) p = lookup s p"
  by (simp add: lookup_def record_event_def)

lemma lookup_log_update [simp]: "lookup (s\<lparr>log := l\<rparr>) p = lookup s p"
  by (simp add: lookup_def)

lemma log_record_event [simp]: "log (record_event ev s) = log s @ [ev]"
  by (simp add: record_event_def)

lemma heap_record_event [simp]: "heap (record_event ev s) = heap s"
  by (simp add: record_event_def)

lemma log_store [simp]: "log (store p n s) = log s"
  by (simp add: store_def)

lemma length_heap_store [simp]: "length (heap (store p n s)) = length (heap s)"
  by (simp add: store_def)

lemma lookup_store:
  "lookup (store p n s) q = (if q = p \<and> p < length (heap s) then Some n else lookup s q)"
  by (auto simp: lookup_def store_def)

lemma lookup_Some_less: "lookup s p = Some n \<Longrightarrow> p < length (heap s)"
  by (simp add: lookup_def split: if_splits)

lemma lookup_store_same: "lookup s p = Some n \<Longrightarrow> lookup (store p n' s) p = Some n'"
  by (simp add: lookup_store lookup_Some_less)

lemma assign_dirty_Inr:
  "assign_dirty p b s = Inr s' \<Longrightarrow>
     \<exists>n e. lookup s p = Some n \<and> derived n = Some e
       \<and> s' = store p (n\<lparr>derived := Some (e\<lparr>m_dirty := b\<rparr>)\<rparr>) s"
  by (auto simp: assign_dirty_def split: option.splits)

lemma TypedBinding_get_Inr:
  "TypedBinding_get p s = Inr (s', v) \<Longrightarrow> s' = s \<and> (\<exists>n. lookup s p = Some n \<and> m_value n = v)"
  by (auto simp: TypedBinding_get_def split: option.splits)

lemma get_clean:
  "lookup s p = Some n \<Longrightarrow> derived n = Some e \<Longrightarrow> \<not> m_dirty e \<Longrightarrow>
     get (Suc k) p s = Inr (record_event (Ev_get p) s, m_value n)"
  by (simp add: TypedBinding_get_def)

lemma get_expr_post:
  assumes "lookup s p = Some n" "derived n = Some e" "get (Suc k) p s = Inr (s', v)"
  shows "\<exists>n' e'. lookup s' p = Some n' \<and> derived n' = Some e' \<and> \<not> m_dirty e' \<and> m_value n' = v"
proof (cases "m_dirty e")
  case False
  with assms show ?thesis by (auto simp: TypedBinding_get_def)
next
  case True
  with assms obtain s1 x s2 s3 where
    "assign_dirty p False s2 = Inr s3" "TypedBinding_get p s3 = Inr (s', v)"
    by (auto split: sum.splits)
  then show ?thesis
    by (auto dest!: assign_dirty_Inr TypedBinding_get_Inr simp: lookup_store_same)
qed

subsection \<open>The wiring is kept\<close>

lemma same_wiring_node_refl [simp]: "same_wiring_node n n"
  by (simp add: same_wiring_node_def option.rel_refl)

lemma same_wiring_refl [simp]: "same_wiring s s"
  by (simp add: same_wiring_def list.rel_refl option.rel_refl)

lemma same_wiring_node_trans:
  "same_wiring_node a b \<Longrightarrow> same_wiring_node b c \<Longrightarrow> same_wiring_node a c"
  by (cases "derived a"; cases "derived b"; cases "derived c")
     (auto simp: same_wiring_node_def)

lemma same_wiring_trans: "same_wiring a b \<Longrightarrow> same_wiring b c \<Longrightarrow> same_wiring a c"
  unfolding same_wiring_def
proof (erule list_all2_trans [rotated], assumption)
  fix x y z :: "'a TypedBinding option"
  assume "rel_option same_wiring_node x y" "rel_option same_wiring_node y z"
  then show "rel_option same_wiring_node x z"
    by (cases x; cases y; cases z) (auto intro: same_wiring_node_trans)
qed

lemma same_wiring_record_event [simp]: "same_wiring s (record_event ev s)"
  by (simp add: same_wiring_def list.rel_refl option.rel_refl)

lemma same_wiring_store:
  "lookup s p = Some n \<Longrightarrow> same_wiring_node n n' \<Longrightarrow> same_wiring s (store p n' s)"
  by (auto simp: same_wiring_def store_def lookup_def list_all2_conv_all_nth nth_list_update
        option.rel_refl split: if_splits)

lemma same_wiring_lookup:
  "same_wiring s s' \<Longrightarrow> rel_option same_wiring_node (lookup s p) (lookup s' p)"
  by (auto simp: same_wiring_def lookup_def list_all2_conv_all_nth)

lemma same_wiring_assign_dirty: "assign_dirty p b s = Inr s' \<Longrightarrow> same_wiring s s'"
  by (auto dest!: assign_dirty_Inr intro!: same_wiring_store simp: same_wiring_node_def)

lemma same_wiring_set_value:
  "lookup s p = Some n \<Longrightarrow> same_wiring s (store p (n\<lparr>m_value := v\<rparr>) s)"
  by (auto intro!: same_wiring_store simp: same_wiring_node_def option.rel_refl)

lemma lookup_iff_in_heap: "(\<exists>q. lookup s q = Some n) \<longleftrightarrow> Some n \<in> set (heap s)"
  by (auto simp: lookup_def in_set_conv_nth split: if_splits)

lemma is_subscriber_iff:
  "is_subscriber s r \<longleftrightarrow> (\<exists>q n. lookup s q = Some n \<and> r \<in> set (m_refs n))"
proof -
  have "is_subscriber s r \<longleftrightarrow> (\<exists>n. Some n \<in> set (heap s) \<and> r \<in> set (m_refs n))"
    unfolding is_subscriber_def list_ex_iff
  proof
    assume "\<exists>x\<in>set (heap s). case x of None \<Rightarrow> False | Some n \<Rightarrow> r \<in> set (m_refs n)"
    then obtain x where "x \<in> set (heap s)" "case x of None \<Rightarrow> False | Some n \<Rightarrow> r \<in> set (m_refs n)"
      by blast
    then show "\<exists>n. Some n \<in> set (heap s) \<and> r \<in> set (m_refs n)"
      by (auto split: option.splits)
  next
    assume "\<exists>n. Some n \<in> set (heap s) \<and> r \<in> set (m_refs n)"
    then obtain n where "Some n \<in> set (heap s)" "r \<in> set (m_refs n)" by blast
    then show "\<exists>x\<in>set (heap s). case x of None \<Rightarrow> False | Some n \<Rightarrow> r \<in> set (m_refs n)"
      by (intro bexI [where x = "Some n"]) simp_all
  qed
  also have "\<dots> \<longleftrightarrow> (\<exists>n. (\<exists>q. lookup s q = Some n) \<and> r \<in> set (m_refs n))"
    by (simp only: lookup_iff_in_heap)
  finally show ?thesis by blast
qed

lemma is_input_iff:
  "is_input s a \<longleftrightarrow>
     (\<exists>q n e. lookup s q = Some n \<and> derived n = Some e \<and> a \<in> set (m_arguments e))"
proof -
  have "is_input s a \<longleftrightarrow>
          (\<exists>n. Some n \<in> set (heap s) \<and> (\<exists>e. derived n = Some e \<and> a \<in> set (m_arguments e)))"
    unfolding is_input_def list_ex_iff
  proof
    assume "\<exists>x\<in>set (heap s). case x of None \<Rightarrow> False
              | Some n \<Rightarrow> (case derived n of None \<Rightarrow> False | Some e \<Rightarrow> a \<in> set (m_arguments e))"
    then obtain x where "x \<in> set (heap s)"
      "case x of None \<Rightarrow> False
         | Some n \<Rightarrow> (case derived n of None \<Rightarrow> False | Some e \<Rightarrow> a \<in> set (m_arguments e))"
      by blast
    then show "\<exists>n. Some n \<in> set (heap s) \<and> (\<exists>e. derived n = Some e \<and> a \<in> set (m_arguments e))"
      by (auto split: option.splits)
  next
    assume "\<exists>n. Some n \<in> set (heap s) \<and> (\<exists>e. derived n = Some e \<and> a \<in> set (m_arguments e))"
    then obtain n e where "Some n \<in> set (heap s)" "derived n = Some e" "a \<in> set (m_arguments e)"
      by blast
    then show "\<exists>x\<in>set (heap s). case x of None \<Rightarrow> False
              | Some n \<Rightarrow> (case derived n of None \<Rightarrow> False | Some e \<Rightarrow> a \<in> set (m_arguments e))"
      by (intro bexI [where x = "Some n"]) simp_all
  qed
  also have "\<dots> \<longleftrightarrow> (\<exists>n. (\<exists>q. lookup s q = Some n)
                        \<and> (\<exists>e. derived n = Some e \<and> a \<in> set (m_arguments e)))"
    by (simp only: lookup_iff_in_heap)
  finally show ?thesis by blast
qed

lemma same_wiring_lookup_Some:
  "same_wiring s s' \<Longrightarrow> lookup s q = Some n \<Longrightarrow>
     \<exists>n'. lookup s' q = Some n' \<and> same_wiring_node n n'"
  by (drule same_wiring_lookup [where p = q]) (auto simp: option_rel_Some1)

lemma same_wiring_lookup_Some':
  "same_wiring s s' \<Longrightarrow> lookup s' q = Some n' \<Longrightarrow>
     \<exists>n. lookup s q = Some n \<and> same_wiring_node n n'"
  by (drule same_wiring_lookup [where p = q]) (auto simp: option_rel_Some2)

lemma same_wiring_node_derived:
  "same_wiring_node n n' \<Longrightarrow> derived n = Some e \<Longrightarrow>
     \<exists>e'. derived n' = Some e' \<and> m_eval_policy e' = m_eval_policy e
        \<and> m_function e' = m_function e \<and> m_arguments e' = m_arguments e"
  by (auto simp: same_wiring_node_def option_rel_Some1)

lemma same_wiring_node_derived':
  "same_wiring_node n n' \<Longrightarrow> derived n' = Some e' \<Longrightarrow>
     \<exists>e. derived n = Some e \<and> m_eval_policy e' = m_eval_policy e
        \<and> m_function e' = m_function e \<and> m_arguments e' = m_arguments e"
  by (auto simp: same_wiring_node_def option_rel_Some2)

lemma same_wiring_is_subscriber: "same_wiring s s' \<Longrightarrow> is_subscriber s' r = is_subscriber s r"
  unfolding is_subscriber_iff
proof
  assume "\<exists>q n. lookup s' q = Some n \<and> r \<in> set (m_refs n)"
  then obtain q n' where "lookup s' q = Some n'" "r \<in> set (m_refs n')"
    by blast
  moreover assume "same_wiring s s'"
  ultimately show "\<exists>q n. lookup s q = Some n \<and> r \<in> set (m_refs n)"
    by (fastforce dest: same_wiring_lookup_Some' simp: same_wiring_node_def)
next
  assume "\<exists>q n. lookup s q = Some n \<and> r \<in> set (m_refs n)"
  then obtain q n where "lookup s q = Some n" "r \<in> set (m_refs n)"
    by blast
  moreover assume "same_wiring s s'"
  ultimately show "\<exists>q n. lookup s' q = Some n \<and> r \<in> set (m_refs n)"
    by (fastforce dest: same_wiring_lookup_Some simp: same_wiring_node_def)
qed

lemma same_wiring_is_input: "same_wiring s s' \<Longrightarrow> is_input s' a = is_input s a"
  unfolding is_input_iff
proof
  assume "\<exists>q n e. lookup s' q = Some n \<and> derived n = Some e \<and> a \<in> set (m_arguments e)"
  then obtain q n' e' where "lookup s' q = Some n'" "derived n' = Some e'" "a \<in> set (m_arguments e')"
    by blast
  moreover assume "same_wiring s s'"
  ultimately show "\<exists>q n e. lookup s q = Some n \<and> derived n = Some e \<and> a \<in> set (m_arguments e)"
    by (fastforce dest: same_wiring_lookup_Some' same_wiring_node_derived')
next
  assume "\<exists>q n e. lookup s q = Some n \<and> derived n = Some e \<and> a \<in> set (m_arguments e)"
  then obtain q n e where "lookup s q = Some n" "derived n = Some e" "a \<in> set (m_arguments e)"
    by blast
  moreover assume "same_wiring s s'"
  ultimately show "\<exists>q n e. lookup s' q = Some n \<and> derived n = Some e \<and> a \<in> set (m_arguments e)"
    by (fastforce dest: same_wiring_lookup_Some same_wiring_node_derived)
qed

subsection \<open>Effects\<close>

lemma is_dirty_record_event [simp]: "is_dirty (record_event ev s) p = is_dirty s p"
  by (simp add: is_dirty_def)

lemma is_dirty_set_value:
  "lookup s p = Some n \<Longrightarrow> is_dirty (store p (n\<lparr>m_value := v\<rparr>) s) q = is_dirty s q"
  by (simp add: is_dirty_def lookup_store)

lemma is_dirty_assign_dirty:
  "assign_dirty p b s = Inr s' \<Longrightarrow> is_dirty s' q = (if q = p then b else is_dirty s q)"
  by (auto dest!: assign_dirty_Inr simp: is_dirty_def lookup_store lookup_Some_less)

lemma read_m_value_record_event [simp]:
  "read_m_value p (record_event ev s) = read_m_value p s"
  by (simp add: read_m_value_def)

lemma read_m_value_assign_dirty:
  "assign_dirty q b s = Inr s' \<Longrightarrow> read_m_value p s' = read_m_value p s"
  by (auto dest!: assign_dirty_Inr simp: read_m_value_def lookup_store)

lemma effect_refl: "effect U G s [] s"
  by (simp add: effect_def)

lemma effect_trans:
  assumes "effect U G s l1 s1" "effect U G s1 l2 s2"
  shows "effect U G s (l1 @ l2) s2"
proof -
  from assms have w: "same_wiring s s1" "same_wiring s1 s2" by (simp_all add: effect_def)
  have sub: "is_subscriber s1 r = is_subscriber s r" for r
    using w(1) by (rule same_wiring_is_subscriber)
  have inp: "is_input s1 a = is_input s a" for a
    using w(1) by (rule same_wiring_is_input)
  have "same_wiring s s2" using w by (rule same_wiring_trans)
  moreover have "log s2 = log s @ l1 @ l2" using assms by (simp add: effect_def)
  moreover have "\<forall>r. Ev_update r \<in> set (l1 @ l2) \<longrightarrow> r \<in> U \<or> is_subscriber s r"
    using assms sub by (auto simp: effect_def)
  moreover have "\<forall>a. Ev_get a \<in> set (l1 @ l2) \<longrightarrow> a \<in> G \<or> is_input s a"
    using assms inp by (auto simp: effect_def)
  moreover have "\<forall>p. is_dirty s p \<longrightarrow> is_dirty s2 p \<or> Ev_get p \<in> set (l1 @ l2)"
    using assms by (auto simp: effect_def)
  moreover have "\<forall>p. (\<forall>x. Ev_set p x \<notin> set (l1 @ l2)) \<longrightarrow> read_m_value p s2 = read_m_value p s"
    using assms by (auto simp: effect_def)
  ultimately show ?thesis by (simp add: effect_def)
qed

lemma effect_weaken:
  assumes "effect U G s l s'"
    and "\<forall>r\<in>U. r \<in> U' \<or> is_subscriber s r"
    and "\<forall>a\<in>G. a \<in> G' \<or> is_input s a"
  shows "effect U' G' s l s'"
  using assms unfolding effect_def by blast

lemma effect_event:
  assumes "\<forall>r. ev = Ev_update r \<longrightarrow> r \<in> U \<or> is_subscriber s r"
    and "\<forall>a. ev = Ev_get a \<longrightarrow> a \<in> G \<or> is_input s a"
  shows "effect U G s [ev] (record_event ev s)"
  using assms by (simp add: effect_def)

lemma effect_set_value:
  assumes "lookup s p = Some n"
  shows "effect U G s [Ev_set p v] (store p (n\<lparr>m_value := v\<rparr>) (record_event (Ev_set p v) s))"
proof -
  let ?s0 = "record_event (Ev_set p v) s"
  from assms have n0: "lookup ?s0 p = Some n" by simp
  have "same_wiring s ?s0" by simp
  moreover from n0 have "same_wiring ?s0 (store p (n\<lparr>m_value := v\<rparr>) ?s0)"
    by (rule same_wiring_set_value)
  ultimately have "same_wiring s (store p (n\<lparr>m_value := v\<rparr>) ?s0)"
    by (rule same_wiring_trans)
  moreover have "read_m_value q (store p (n\<lparr>m_value := v\<rparr>) ?s0) = read_m_value q s"
    if "q \<noteq> p" for q
    using that by (simp add: read_m_value_def lookup_store)
  ultimately show ?thesis
    using n0 by (auto simp: effect_def is_dirty_set_value)
qed

lemma effect_dirty_True: "assign_dirty p True s = Inr s' \<Longrightarrow> effect U G s [] s'"
  by (frule same_wiring_assign_dirty, frule read_m_value_assign_dirty, frule assign_dirty_Inr)
     (auto simp: effect_def is_dirty_assign_dirty read_m_value_assign_dirty)

lemma effect_clear:
  assumes "effect U G s l s2" "Ev_get p \<in> set l" "assign_dirty p False s2 = Inr s3"
  shows "effect U G s l s3"
proof -
  from assms(3) have "same_wiring s2 s3" by (rule same_wiring_assign_dirty)
  with assms(1) have "same_wiring s s3" by (auto simp: effect_def intro: same_wiring_trans)
  moreover from assms(3) have "log s3 = log s2" by (auto dest!: assign_dirty_Inr)
  moreover have "\<forall>q. is_dirty s q \<longrightarrow> is_dirty s3 q \<or> Ev_get q \<in> set l"
    using assms by (auto simp: effect_def is_dirty_assign_dirty)
  moreover have "\<forall>q. (\<forall>x. Ev_set q x \<notin> set l) \<longrightarrow> read_m_value q s3 = read_m_value q s"
    using assms(1) read_m_value_assign_dirty [OF assms(3)] by (simp add: effect_def)
  ultimately show ?thesis using assms(1) by (simp add: effect_def)
qed

lemma is_input_lookup:
  "lookup s p = Some n \<Longrightarrow> derived n = Some e \<Longrightarrow> a \<in> set (m_arguments e) \<Longrightarrow> is_input s a"
  unfolding is_input_iff by blast

lemma is_subscriber_lookup:
  "lookup s p = Some n \<Longrightarrow> r \<in> set (m_refs n) \<Longrightarrow> is_subscriber s r"
  unfolding is_subscriber_iff by blast

lemma is_input_record_event [simp]: "is_input (record_event ev s) a = is_input s a"
  by (simp add: is_input_def)

lemma is_subscriber_record_event [simp]: "is_subscriber (record_event ev s) r = is_subscriber s r"
  by (simp add: is_subscriber_def)

lemma effect_steps:
  "(\<forall>s' v. get k p s = Inr (s', v) \<longrightarrow> (\<exists>l. effect {} {p} s l s'))"
  "(\<forall>s'. set_binding k p x s = Inr s' \<longrightarrow> (\<exists>l. effect {} {} s l s'))"
  "(\<forall>s'. notify k rs s = Inr s' \<longrightarrow> (\<exists>l. effect (set rs) {} s l s'))"
  "(\<forall>s'. update k p s = Inr s' \<longrightarrow> (\<exists>l. effect {p} {} s l s'))"
  "(\<forall>s' v. dispatch k p rest args s = Inr (s', v) \<longrightarrow> (\<exists>l. effect {} (set rest) s l s'))"
proof (induction k p s and k p x s and k rs s and k p s and k p rest args s
       rule: get_set_binding_notify_update_dispatch.induct)
  case (1 p s)
  show ?case by simp
next
  case (2 k p s)
  show ?case
  proof (intro allI impI)
    fix s' v
    assume run: "get (Suc k) p s = Inr (s', v)"
    then obtain n where n: "lookup s p = Some n" by (auto split: option.splits)
    let ?s0 = "record_event (Ev_get p) s"
    have ev: "effect {} {p} s [Ev_get p] ?s0" by (rule effect_event) simp_all
    show "\<exists>l. effect {} {p} s l s'"
    proof (cases "derived n")
      case None
      with run n have "s' = ?s0" by (auto dest!: TypedBinding_get_Inr)
      with ev show ?thesis by blast
    next
      case (Some e)
      show ?thesis
      proof (cases "m_dirty e")
        case False
        with run n Some have "s' = ?s0" by (auto dest!: TypedBinding_get_Inr)
        with ev show ?thesis by blast
      next
        case True
        with run n Some obtain s1 x s2 s3 where
          d: "dispatch k p (m_arguments e) [] ?s0 = Inr (s1, x)"
          and b: "set_binding k p x s1 = Inr s2"
          and a: "assign_dirty p False s2 = Inr s3"
          and g: "TypedBinding_get p s3 = Inr (s', v)"
          by (auto split: sum.splits)
        from "2.IH"(1) [OF n Some True] d obtain l1 where
          "effect {} (set (m_arguments e)) ?s0 l1 s1" by blast
        then have e1: "effect {} {p} ?s0 l1 s1"
          by (rule effect_weaken) (use n Some in \<open>auto intro: is_input_lookup\<close>)
        from "2.IH"(2) [OF n Some True d refl] b obtain l2 where
          "effect {} {} s1 l2 s2" by blast
        then have e2: "effect {} {p} s1 l2 s2" by (rule effect_weaken) simp_all
        from ev e1 e2 have "effect {} {p} s ([Ev_get p] @ l1 @ l2) s2"
          by (blast intro: effect_trans)
        then have "effect {} {p} s ([Ev_get p] @ l1 @ l2) s3"
          by (rule effect_clear) (use a in simp_all)
        moreover from g have "s' = s3" by (auto dest: TypedBinding_get_Inr)
        ultimately show ?thesis by blast
      qed
    qed
  qed
next
  case (3 p x s)
  show ?case by simp
next
  case (4 k p x s)
  show ?case
  proof (intro allI impI)
    fix s'
    assume run: "set_binding (Suc k) p x s = Inr s'"
    then obtain n where n: "lookup s p = Some n" by (auto split: option.splits)
    let ?s0 = "record_event (Ev_set p x) s"
    show "\<exists>l. effect {} {} s l s'"
    proof (cases "different_with n x")
      case False
      have ev: "effect {} {} s [] s" by (rule effect_refl)
      have "log ?s0 = log s @ [Ev_set p x]" by simp
      moreover have "read_m_value q ?s0 = read_m_value q s" for q by simp
      moreover have "is_dirty ?s0 q = is_dirty s q" for q by simp
      ultimately have "effect {} {} s [Ev_set p x] ?s0" by (simp add: effect_def)
      moreover from False run n have "s' = ?s0" by simp
      ultimately show ?thesis by blast
    next
      case True
      let ?s1 = "store p (n\<lparr>m_value := x\<rparr>) ?s0"
      from n have n0: "lookup ?s0 p = Some n" by simp
      from n have st: "effect {} {} s [Ev_set p x] ?s1" by (rule effect_set_value)
      from n0 have n1: "lookup ?s1 p = Some (n\<lparr>m_value := x\<rparr>)" by (rule lookup_store_same)
      from True run n have "notify k (m_refs n) ?s1 = Inr s'" by simp
      with "4.IH" [OF n True] obtain l1 where "effect (set (m_refs n)) {} ?s1 l1 s'" by blast
      then have e1: "effect {} {} ?s1 l1 s'"
        by (rule effect_weaken) (use n1 in \<open>auto intro: is_subscriber_lookup\<close>)
      from st e1 have "effect {} {} s ([Ev_set p x] @ l1) s'"
        by (rule effect_trans)
      then show ?thesis by blast
    qed
  qed
next
  case (5 k s)
  show ?case by (auto intro: effect_refl)
next
  case (6 k r rs s)
  show ?case
  proof (intro allI impI)
    fix s'
    assume run: "notify k (r # rs) s = Inr s'"
    then obtain s1 where u: "update k r s = Inr s1" and m: "notify k rs s1 = Inr s'"
      by (auto split: sum.splits)
    from "6.IH"(1) u obtain l1 where "effect {r} {} s l1 s1" by blast
    then have e1: "effect (set (r # rs)) {} s l1 s1" by (rule effect_weaken) simp_all
    from "6.IH"(2) [OF u] m obtain l2 where "effect (set rs) {} s1 l2 s'" by blast
    then have e2: "effect (set (r # rs)) {} s1 l2 s'" by (rule effect_weaken) simp_all
    from e1 e2 show "\<exists>l. effect (set (r # rs)) {} s l s'" by (blast intro: effect_trans)
  qed
next
  case (7 p s)
  show ?case by simp
next
  case (8 k p s)
  show ?case
  proof (intro allI impI)
    fix s'
    assume run: "update (Suc k) p s = Inr s'"
    then obtain n where n: "lookup s p = Some n" by (auto split: option.splits)
    let ?s0 = "record_event (Ev_update p) s"
    have ev: "effect {p} {} s [Ev_update p] ?s0" by (rule effect_event) simp_all
    show "\<exists>l. effect {p} {} s l s'"
    proof (cases "derived n")
      case None
      with run n have "s' = ?s0" by simp
      with ev show ?thesis by blast
    next
      case (Some e)
      show ?thesis
      proof (cases "m_eval_policy e")
        case Eval_Instant
        with run n Some obtain s1 x where
          d: "dispatch k p (m_arguments e) [] ?s0 = Inr (s1, x)"
          and b: "set_binding k p x s1 = Inr s'"
          by (auto split: sum.splits)
        from "8.IH"(1) [OF n Some Eval_Instant] d obtain l1 where
          "effect {} (set (m_arguments e)) ?s0 l1 s1" by blast
        then have e1: "effect {p} {} ?s0 l1 s1"
          by (rule effect_weaken) (use n Some in \<open>auto intro: is_input_lookup\<close>)
        from "8.IH"(2) [OF n Some Eval_Instant d refl] b obtain l2 where
          "effect {} {} s1 l2 s'" by blast
        then have e2: "effect {p} {} s1 l2 s'" by (rule effect_weaken) simp_all
        from ev e1 e2 have "effect {p} {} s ([Ev_update p] @ l1 @ l2) s'"
          by (blast intro: effect_trans)
        then show ?thesis by blast
      next
        case Eval_Lazy
        with run n Some have "assign_dirty p True ?s0 = Inr s'" by simp
        then have "effect {p} {} ?s0 [] s'" by (rule effect_dirty_True)
        with ev have "effect {p} {} s ([Ev_update p] @ []) s'" by (rule effect_trans)
        then show ?thesis by blast
      next
        case Eval_Count
        with run n Some have "s' = ?s0" by simp
        with ev show ?thesis by blast
      qed
    qed
  qed
next
  case (9 k p a rest args s)
  show ?case
  proof (intro allI impI)
    fix s' v
    assume run: "dispatch k p (a # rest) args s = Inr (s', v)"
    then obtain s1 x where g: "get k a s = Inr (s1, x)"
      and d: "dispatch k p rest (args @ [x]) s1 = Inr (s', v)"
      by (auto split: sum.splits)
    from "9.IH"(1) g obtain l1 where "effect {} {a} s l1 s1" by blast
    then have e1: "effect {} (set (a # rest)) s l1 s1" by (rule effect_weaken) simp_all
    from "9.IH"(2) [OF g refl] d obtain l2 where "effect {} (set rest) s1 l2 s'" by blast
    then have e2: "effect {} (set (a # rest)) s1 l2 s'" by (rule effect_weaken) simp_all
    from e1 e2 show "\<exists>l. effect {} (set (a # rest)) s l s'" by (blast intro: effect_trans)
  qed
next
  case (10 k p args s)
  show ?case
  proof (intro allI impI)
    fix s' v
    assume "dispatch k p [] args s = Inr (s', v)"
    then have "s' = record_event (Ev_function p args) s" by (auto split: option.splits)
    moreover have "effect {} (set []) s [Ev_function p args] (record_event (Ev_function p args) s)"
      by (rule effect_event) simp_all
    ultimately show "\<exists>l. effect {} (set []) s l s'" by blast
  qed
qed

subsection \<open>Reading the inputs\<close>



lemma dispatch_Nil:
  "lookup s p = Some n \<Longrightarrow> derived n = Some e \<Longrightarrow>
     dispatch k p [] args s = Inr (record_event (Ev_function p args) s, m_function e args)"
  by simp


lemma get_post:
  assumes "get (Suc k) p s = Inr (s', v)"
  shows "\<not> is_dirty s' p \<and> read_m_value p s' = Some v"
proof -
  from assms obtain n where n: "lookup s p = Some n" by (auto split: option.splits)
  show ?thesis
  proof (cases "derived n")
    case None
    with assms n show ?thesis
      by (auto dest!: TypedBinding_get_Inr simp: is_dirty_def read_m_value_def)
  next
    case (Some e)
    from get_expr_post [OF n Some assms] show ?thesis
      by (auto simp: is_dirty_def read_m_value_def)
  qed
qed

subsection \<open>Removing subscribers\<close>

lemma lookup_free:
  "lookup (s\<lparr>heap := (heap s)[p := None]\<rparr>) q = (if q = p then None else lookup s q)"
  by (auto simp: lookup_def)

lemma uninstall_ref_Some:
  "lookup s a = Some na \<Longrightarrow>
     uninstall_ref p a s = Inr (store a (na\<lparr>m_refs := filter (\<lambda>ref. \<not> (ref = p)) (m_refs na)\<rparr>) s)"
  by (simp add: uninstall_ref_def)

lemma process_refs_uninstall:
  assumes "\<forall>a\<in>set args. lookup s a \<noteq> None"
  shows "\<exists>s'. process_refs False p args s = Inr s' \<and> log s' = log s
           \<and> length (heap s') = length (heap s)
           \<and> (\<forall>q. lookup s' q =
                  (if q \<in> set args
                   then map_option (\<lambda>n. n\<lparr>m_refs := filter (\<lambda>ref. \<not> (ref = p)) (m_refs n)\<rparr>)
                          (lookup s q)
                   else lookup s q))"
  using assms
proof (induction args arbitrary: s)
  case Nil
  show ?case by simp
next
  case (Cons a rest)
  from Cons.prems obtain na where na: "lookup s a = Some na" by auto
  let ?na = "na\<lparr>m_refs := filter (\<lambda>ref. \<not> (ref = p)) (m_refs na)\<rparr>"
  let ?s1 = "store a ?na s"
  have l1: "lookup ?s1 q = (if q = a then Some ?na else lookup s q)" for q
    using na by (simp add: lookup_store lookup_Some_less)
  from Cons.prems have "\<forall>b\<in>set rest. lookup ?s1 b \<noteq> None" by (simp add: l1)
  from Cons.IH [OF this] obtain s' where
    run: "process_refs False p rest ?s1 = Inr s'" and lg: "log s' = log ?s1"
    and len: "length (heap s') = length (heap ?s1)"
    and lk: "\<And>q. lookup s' q =
                  (if q \<in> set rest
                   then map_option (\<lambda>n. n\<lparr>m_refs := filter (\<lambda>ref. \<not> (ref = p)) (m_refs n)\<rparr>)
                          (lookup ?s1 q)
                   else lookup ?s1 q)"
    by blast
  have "process_refs False p (a # rest) s = Inr s'"
    using na run by (simp add: uninstall_ref_Some)
  moreover have "lookup s' q =
                  (if q \<in> set (a # rest)
                   then map_option (\<lambda>n. n\<lparr>m_refs := filter (\<lambda>ref. \<not> (ref = p)) (m_refs n)\<rparr>)
                          (lookup s q)
                   else lookup s q)" for q
    using na by (simp add: lk l1)
  ultimately show ?case using lg len by simp
qed

lemma subscribed_only_to_iff:
  "subscribed_only_to s p inputs \<longleftrightarrow>
     (\<forall>q n. lookup s q = Some n \<longrightarrow> p \<in> set (m_refs n) \<longrightarrow> q \<in> set inputs)"
  unfolding subscribed_only_to_def list_all_iff lookup_def
  by (auto split: option.splits if_splits)

lemma uninstall_ref_absent:
  "lookup s a = Some na \<Longrightarrow> p \<notin> set (m_refs na) \<Longrightarrow> uninstall_ref p a s = Inr s"
proof -
  assume na: "lookup s a = Some na" and "p \<notin> set (m_refs na)"
  then have "filter (\<lambda>ref. \<not> (ref = p)) (m_refs na) = m_refs na"
    by (auto simp: filter_id_conv)
  then have "na\<lparr>m_refs := filter (\<lambda>ref. \<not> (ref = p)) (m_refs na)\<rparr> = na" by simp
  moreover from na have "(heap s)[a := Some na] = heap s"
    by (simp add: lookup_def list_update_same_conv split: if_splits)
  ultimately show ?thesis using na by (simp add: uninstall_ref_Some store_def)
qed

subsection \<open>Which dangling pointers a call can meet\<close>

lemma reach_same_wiring: "same_wiring s s' \<Longrightarrow> reach A s' x = reach A s x"
  by (simp add: reach_def same_wiring_is_subscriber same_wiring_is_input)

lemma reach_record_event [simp]: "reach A (record_event ev s) x = reach A s x"
  by (simp add: reach_def)

lemma reach_weaken: "reach A s x \<Longrightarrow> \<forall>a\<in>A. reach B s a \<Longrightarrow> reach B s x"
  by (auto simp: reach_def)

lemma assign_dirty_Inl: "assign_dirty p b s = Inl err \<Longrightarrow> err = Dangling p"
  by (auto simp: assign_dirty_def split: option.splits)

lemma TypedBinding_get_Inl: "TypedBinding_get p s = Inl err \<Longrightarrow> err = Dangling p"
  by (auto simp: TypedBinding_get_def split: option.splits)

lemma effect_same_wiring: "effect U G s l s' \<Longrightarrow> same_wiring s s'"
  by (simp add: effect_def)

lemma dangling_steps:
  "get k p s = Inl (Dangling x) \<longrightarrow> reach {p} s x"
  "set_binding k p v s = Inl (Dangling x) \<longrightarrow> reach {p} s x"
  "notify k rs s = Inl (Dangling x) \<longrightarrow> reach (set rs) s x"
  "update k p s = Inl (Dangling x) \<longrightarrow> reach {p} s x"
  "dispatch k p rest args s = Inl (Dangling x) \<longrightarrow> reach (insert p (set rest)) s x"
proof (induction k p s and k p v s and k rs s and k p s and k p rest args s
       rule: get_set_binding_notify_update_dispatch.induct)
  case (1 p s)
  show ?case by simp
next
  case (2 k p s)
  show ?case
  proof
    assume run: "get (Suc k) p s = Inl (Dangling x)"
    let ?s0 = "record_event (Ev_get p) s"
    show "reach {p} s x"
    proof (cases "lookup s p")
      case None
      with run show ?thesis by (simp add: reach_def)
    next
      case (Some n)
      note n = this
      show ?thesis
      proof (cases "derived n")
        case None
        with run n show ?thesis by (auto dest: TypedBinding_get_Inl simp: reach_def)
      next
        case (Some e)
        show ?thesis
        proof (cases "m_dirty e")
          case False
          with run n Some show ?thesis by (auto dest: TypedBinding_get_Inl simp: reach_def)
        next
          case True
          have args: "\<forall>a\<in>insert p (set (m_arguments e)). reach {p} ?s0 a"
            using n Some by (auto simp: reach_def intro: is_input_lookup)
          show ?thesis
          proof (cases "dispatch k p (m_arguments e) [] ?s0")
            case (Inl err)
            with run n Some True have "err = Dangling x" by simp
            with "2.IH"(1) [OF n Some True] Inl
            have "reach (insert p (set (m_arguments e))) ?s0 x" by simp
            then have "reach {p} ?s0 x" using args by (rule reach_weaken)
            then show ?thesis by simp
          next
            case (Inr r)
            obtain s1 y where r: "r = (s1, y)" by (cases r)
            from effect_steps(5) [of k p "m_arguments e" "[]" ?s0] Inr r
            have w1: "same_wiring ?s0 s1" by (auto dest: effect_same_wiring)
            show ?thesis
            proof (cases "set_binding k p y s1")
              case (Inl err)
              with run n Some True Inr r have "err = Dangling x" by simp
              with "2.IH"(2) [OF n Some True Inr [unfolded r] refl] Inl
              have "reach {p} s1 x" by simp
              with w1 show ?thesis by (simp add: reach_same_wiring)
            next
              case (Inr s2)
              with run n Some True \<open>dispatch k p (m_arguments e) [] ?s0 = Inr r\<close> r
              have "x = p"
                by (auto dest: assign_dirty_Inl TypedBinding_get_Inl split: sum.splits)
              then show ?thesis by (simp add: reach_def)
            qed
          qed
        qed
      qed
    qed
  qed
next
  case (3 p v s)
  show ?case by simp
next
  case (4 k p v s)
  show ?case
  proof
    assume run: "set_binding (Suc k) p v s = Inl (Dangling x)"
    show "reach {p} s x"
    proof (cases "lookup s p")
      case None
      with run show ?thesis by (simp add: reach_def)
    next
      case (Some n)
      let ?s0 = "record_event (Ev_set p v) s"
      let ?s1 = "store p (n\<lparr>m_value := v\<rparr>) ?s0"
      from run Some have d: "different_with n v" and r: "notify k (m_refs n) ?s1 = Inl (Dangling x)"
        by (auto split: if_splits)
      from "4.IH" [OF Some d] r have "reach (set (m_refs n)) ?s1 x" by simp
      moreover have w: "same_wiring ?s0 ?s1"
        using Some by (intro same_wiring_set_value) simp
      ultimately have "reach (set (m_refs n)) ?s0 x" by (simp add: reach_same_wiring)
      moreover have "\<forall>a\<in>set (m_refs n). reach {p} ?s0 a"
        using Some by (auto simp: reach_def intro: is_subscriber_lookup)
      ultimately have "reach {p} ?s0 x" by (rule reach_weaken)
      then show ?thesis by simp
    qed
  qed
next
  case (5 k s)
  show ?case by simp
next
  case (6 k r rs s)
  show ?case
  proof
    assume run: "notify k (r # rs) s = Inl (Dangling x)"
    show "reach (set (r # rs)) s x"
    proof (cases "update k r s")
      case (Inl err)
      with run have "err = Dangling x" by simp
      with "6.IH"(1) Inl have "reach {r} s x" by simp
      then show ?thesis by (rule reach_weaken) (simp add: reach_def)
    next
      case (Inr s1)
      from effect_steps(4) [of k r s] Inr have w: "same_wiring s s1"
        by (auto dest: effect_same_wiring)
      from run Inr have "notify k rs s1 = Inl (Dangling x)" by simp
      with "6.IH"(2) [OF Inr] have "reach (set rs) s1 x" by simp
      with w have "reach (set rs) s x" by (simp add: reach_same_wiring)
      then show ?thesis by (rule reach_weaken) (simp add: reach_def)
    qed
  qed
next
  case (7 p s)
  show ?case by simp
next
  case (8 k p s)
  show ?case
  proof
    assume run: "update (Suc k) p s = Inl (Dangling x)"
    let ?s0 = "record_event (Ev_update p) s"
    show "reach {p} s x"
    proof (cases "lookup s p")
      case None
      with run show ?thesis by (simp add: reach_def)
    next
      case (Some n)
      note n = this
      show ?thesis
      proof (cases "derived n")
        case None
        with run n show ?thesis by simp
      next
        case (Some e)
        show ?thesis
        proof (cases "m_eval_policy e")
          case Eval_Instant
          have args: "\<forall>a\<in>insert p (set (m_arguments e)). reach {p} ?s0 a"
            using n Some by (auto simp: reach_def intro: is_input_lookup)
          show ?thesis
          proof (cases "dispatch k p (m_arguments e) [] ?s0")
            case (Inl err)
            with run n Some Eval_Instant have "err = Dangling x" by simp
            with "8.IH"(1) [OF n Some Eval_Instant] Inl
            have "reach (insert p (set (m_arguments e))) ?s0 x" by simp
            then have "reach {p} ?s0 x" using args by (rule reach_weaken)
            then show ?thesis by simp
          next
            case (Inr r)
            obtain s1 y where r: "r = (s1, y)" by (cases r)
            from effect_steps(5) [of k p "m_arguments e" "[]" ?s0] Inr r
            have w1: "same_wiring ?s0 s1" by (auto dest: effect_same_wiring)
            from run n Some Eval_Instant Inr r
            have "set_binding k p y s1 = Inl (Dangling x)" by simp
            with "8.IH"(2) [OF n Some Eval_Instant Inr [unfolded r] refl]
            have "reach {p} s1 x" by simp
            with w1 show ?thesis by (simp add: reach_same_wiring)
          qed
        next
          case Eval_Lazy
          with run n Some have "x = p" by (auto dest: assign_dirty_Inl)
          then show ?thesis by (simp add: reach_def)
        next
          case Eval_Count
          with run n Some show ?thesis by simp
        qed
      qed
    qed
  qed
next
  case (9 k p a rest args s)
  show ?case
  proof
    assume run: "dispatch k p (a # rest) args s = Inl (Dangling x)"
    show "reach (insert p (set (a # rest))) s x"
    proof (cases "get k a s")
      case (Inl err)
      with run have "err = Dangling x" by simp
      with "9.IH"(1) Inl have "reach {a} s x" by simp
      then show ?thesis by (rule reach_weaken) (simp add: reach_def)
    next
      case (Inr r)
      obtain s1 y where r: "r = (s1, y)" by (cases r)
      from effect_steps(1) [of k a s] Inr r have w: "same_wiring s s1"
        by (auto dest: effect_same_wiring)
      from run Inr r have "dispatch k p rest (args @ [y]) s1 = Inl (Dangling x)" by simp
      with "9.IH"(2) [OF Inr [unfolded r] refl] have "reach (insert p (set rest)) s1 x" by simp
      with w have "reach (insert p (set rest)) s x" by (simp add: reach_same_wiring)
      then show ?thesis by (rule reach_weaken) (auto simp: reach_def)
    qed
  qed
next
  case (10 k p args s)
  show ?case by (auto simp: reach_def split: option.splits)
qed

subsection \<open>The constructor and the dirty flag\<close>

lemma is_input_store:
  assumes "lookup s a = Some na" "derived na' = derived na"
  shows "is_input (store a na' s) x = is_input s x"
  unfolding is_input_iff
proof
  assume "\<exists>q n e. lookup (store a na' s) q = Some n \<and> derived n = Some e \<and> x \<in> set (m_arguments e)"
  then obtain q n e where q: "lookup (store a na' s) q = Some n" "derived n = Some e"
    "x \<in> set (m_arguments e)" by blast
  show "\<exists>q n e. lookup s q = Some n \<and> derived n = Some e \<and> x \<in> set (m_arguments e)"
  proof (cases "q = a")
    case True
    with q assms have "derived na = Some e" by (simp add: lookup_store lookup_Some_less)
    with assms(1) q(3) show ?thesis by blast
  next
    case False
    with q have "lookup s q = Some n" by (simp add: lookup_store)
    with q show ?thesis by blast
  qed
next
  assume "\<exists>q n e. lookup s q = Some n \<and> derived n = Some e \<and> x \<in> set (m_arguments e)"
  then obtain q n e where q: "lookup s q = Some n" "derived n = Some e"
    "x \<in> set (m_arguments e)" by blast
  show "\<exists>q n e. lookup (store a na' s) q = Some n \<and> derived n = Some e \<and> x \<in> set (m_arguments e)"
  proof (cases "q = a")
    case True
    with q assms have "lookup (store a na' s) a = Some na'" "derived na' = Some e"
      by (simp_all add: lookup_store lookup_Some_less)
    with q(3) show ?thesis by blast
  next
    case False
    with q have "lookup (store a na' s) q = Some n" by (simp add: lookup_store)
    with q show ?thesis by blast
  qed
qed

lemma is_dirty_store:
  "lookup s a = Some na \<Longrightarrow> derived na' = derived na \<Longrightarrow> is_dirty (store a na' s) q = is_dirty s q"
  by (simp add: is_dirty_def lookup_store)

lemma read_eval_policy_store:
  "lookup s a = Some na \<Longrightarrow> derived na' = derived na \<Longrightarrow>
     read_eval_policy q (store a na' s) = read_eval_policy q s"
  by (simp add: read_eval_policy_def lookup_store)

lemma process_refs_install:
  "process_refs True p args s = Inr s' \<Longrightarrow>
     (\<forall>x. is_input s' x = is_input s x) \<and> (\<forall>q. is_dirty s' q = is_dirty s q)
     \<and> (\<forall>q. read_eval_policy q s' = read_eval_policy q s)"
proof (induction args arbitrary: s)
  case Nil
  then show ?case by simp
next
  case (Cons a rest)
  from Cons.prems obtain na where na: "lookup s a = Some na"
    and run: "process_refs True p rest (store a (na\<lparr>m_refs := m_refs na @ [p]\<rparr>) s) = Inr s'"
    by (auto simp: install_ref_def split: option.splits sum.splits)
  from Cons.IH [OF run] na show ?case
    by (simp add: is_input_store is_dirty_store read_eval_policy_store)
qed

lemma same_wiring_read_eval_policy:
  assumes "same_wiring s s'"
  shows "read_eval_policy p s' = read_eval_policy p s"
proof (cases "lookup s p")
  case None
  with same_wiring_lookup [OF assms, of p] show ?thesis
    by (simp add: read_eval_policy_def)
next
  case (Some n)
  with same_wiring_lookup_Some [OF assms] obtain n' where
    n': "lookup s' p = Some n'" "same_wiring_node n n'" by blast
  then show ?thesis using Some
    by (cases "derived n"; cases "derived n'")
       (auto simp: read_eval_policy_def same_wiring_node_def)
qed

lemma is_input_alloc:
  "is_input (s\<lparr>heap := heap s @ [Some n]\<rparr>) x =
     (is_input s x \<or> (case derived n of None \<Rightarrow> False | Some e \<Rightarrow> x \<in> set (m_arguments e)))"
  by (simp add: is_input_def)

lemma constructed_dirty:
  fixes s :: "'v::zero state"
  assumes args: "\<forall>a\<in>set args. a < length (heap s)"
    and fresh: "\<not> is_input s (length (heap s))"
    and run: "new_TypedBindedExpr k f args s = Inr (s1, p)"
  shows "p = length (heap s) \<and> is_dirty s1 p \<and> read_eval_policy p s1 = Inr Eval_Instant"
proof -
  let ?p = "length (heap s)"
  let ?e = "\<lparr>m_eval_policy = Eval_Instant, m_function = f, m_arguments = args, m_dirty = False\<rparr>"
  let ?n = "\<lparr>m_value = 0 :: 'v, m_comp_policy = Comp_NotEqual, m_refs = [], derived = Some ?e\<rparr>"
  let ?s0 = "s\<lparr>heap := heap s @ [Some ?n]\<rparr>"
  have l0: "lookup ?s0 ?p = Some ?n" by (simp add: lookup_def)
  then have pol: "read_eval_policy ?p ?s0 = Inr Eval_Instant"
    by (simp add: read_eval_policy_def)
  let ?sA = "store ?p (?n\<lparr>derived := Some (?e\<lparr>m_dirty := True\<rparr>)\<rparr>) ?s0"
  have a: "assign_dirty ?p True ?s0 = Inr ?sA" using l0 by (simp add: assign_dirty_def)
  from run pol a obtain sB where
    refs: "process_refs True ?p args ?sA = Inr sB" and upd: "update k ?p sB = Inr s1"
    and p: "p = ?p"
    by (auto simp: new_TypedBindedExpr_def alloc_def split: sum.splits)
  have dA: "is_dirty ?sA ?p" using a by (simp add: is_dirty_assign_dirty)
  have "?p \<notin> set args" using args by blast
  with fresh have "\<not> is_input ?s0 ?p" by (simp add: is_input_alloc)
  moreover have "is_input ?sA ?p = is_input ?s0 ?p"
    using a by (intro same_wiring_is_input same_wiring_assign_dirty)
  ultimately have iA: "\<not> is_input ?sA ?p" by simp
  have pA: "read_eval_policy ?p ?sA = Inr Eval_Instant"
    using l0 by (simp add: read_eval_policy_def lookup_store_same)
  from process_refs_install [OF refs] dA iA pA
  have B: "is_dirty sB ?p" "\<not> is_input sB ?p" "read_eval_policy ?p sB = Inr Eval_Instant"
    by simp_all
  from effect_steps(4) [of k ?p sB] upd obtain l where l: "effect {?p} {} sB l s1" by blast
  with B have "Ev_get ?p \<notin> set l" by (auto simp: effect_def)
  with l B(1) have "is_dirty s1 ?p" by (auto simp: effect_def)
  moreover from l have "read_eval_policy ?p s1 = read_eval_policy ?p sB"
    by (intro same_wiring_read_eval_policy) (simp add: effect_def)
  ultimately show ?thesis using p B(3) by simp
qed

lemma notify_keeps_dirty:
  assumes "is_dirty t p" "notify j rs t = Inr t'"
  shows "(\<exists>l. log t' = log t @ l \<and> (is_dirty t' p \<or> Ev_get p \<in> set l))
         \<and> (\<not> is_input t p \<longrightarrow> is_dirty t' p)"
proof -
  from effect_steps(3) [of j rs t] assms(2) obtain l where "effect (set rs) {} t l t'" by blast
  with assms(1) show ?thesis unfolding effect_def by blast
qed

lemma get_dirty:
  assumes "lookup u q = Some n" "derived n = Some e" "m_dirty e"
  shows "get (Suc i) q u =
           bind_result (dispatch i q (m_arguments e) [] (record_event (Ev_get q) u))
             (\<lambda>(u1, v). bind_result (set_binding i q v u1)
             (\<lambda>u2. bind_result (assign_dirty q False u2) (TypedBinding_get q)))"
  using assms by (simp add: bind_result_def split: sum.splits)

text \<open>The constructor subscribes the new expression to its inputs and to nothing
  else, given a store in which no subscriber list holds the address of the new object.\<close>

lemma process_refs_install_refs:
  "process_refs True p args s = Inr s' \<Longrightarrow> lookup s' q = Some n' \<Longrightarrow> x \<in> set (m_refs n') \<Longrightarrow>
     (\<exists>n. lookup s q = Some n \<and> x \<in> set (m_refs n)) \<or> (x = p \<and> q \<in> set args)"
proof (induction args arbitrary: s)
  case Nil
  then show ?case by simp
next
  case (Cons a rest)
  from Cons.prems(1) obtain na where na: "lookup s a = Some na"
    and run: "process_refs True p rest (store a (na\<lparr>m_refs := m_refs na @ [p]\<rparr>) s) = Inr s'"
    by (auto simp: install_ref_def split: option.splits sum.splits)
  from Cons.IH [OF run Cons.prems(2,3)]
  show ?case
  proof
    assume "\<exists>n. lookup (store a (na\<lparr>m_refs := m_refs na @ [p]\<rparr>) s) q = Some n \<and> x \<in> set (m_refs n)"
    with na show ?thesis
      by (auto simp: lookup_store lookup_Some_less split: if_splits)
  next
    assume "x = p \<and> q \<in> set rest"
    then show ?thesis by simp
  qed
qed

lemma constructed_wiring:
  fixes s :: "'v::zero state"
  assumes fresh: "\<not> is_subscriber s (length (heap s))"
    and run: "new_TypedBindedExpr k f args s = Inr (s1, p)"
  shows "subscribed_only_to s1 p args"
proof -
  let ?p = "length (heap s)"
  let ?e = "\<lparr>m_eval_policy = Eval_Instant, m_function = f, m_arguments = args, m_dirty = False\<rparr>"
  let ?n = "\<lparr>m_value = 0 :: 'v, m_comp_policy = Comp_NotEqual, m_refs = [], derived = Some ?e\<rparr>"
  let ?s0 = "s\<lparr>heap := heap s @ [Some ?n]\<rparr>"
  let ?nA = "?n\<lparr>derived := Some (?e\<lparr>m_dirty := True\<rparr>)\<rparr>"
  let ?sA = "store ?p ?nA ?s0"
  have l0: "lookup ?s0 ?p = Some ?n" by (simp add: lookup_def)
  then have pol: "read_eval_policy ?p ?s0 = Inr Eval_Instant"
    by (simp add: read_eval_policy_def)
  have a: "assign_dirty ?p True ?s0 = Inr ?sA" using l0 by (simp add: assign_dirty_def)
  from run pol a obtain sB where
    refs: "process_refs True ?p args ?sA = Inr sB" and upd: "update k ?p sB = Inr s1"
    and p: "p = ?p"
    by (auto simp: new_TypedBindedExpr_def alloc_def split: sum.splits)
  have lA: "lookup ?sA q = (if q = ?p then Some ?nA else lookup s q)" for q
    by (auto simp: lookup_def store_def nth_append nth_list_update)
  from effect_steps(4) [of k ?p sB] upd have w: "same_wiring sB s1"
    by (auto dest: effect_same_wiring)
  show ?thesis
    unfolding subscribed_only_to_iff
  proof (intro allI impI)
    fix q n1
    assume q1: "lookup s1 q = Some n1" and mem: "p \<in> set (m_refs n1)"
    from same_wiring_lookup_Some' [OF w q1] obtain nB where
      qB: "lookup sB q = Some nB" and "same_wiring_node nB n1" by blast
    with mem have memB: "p \<in> set (m_refs nB)" by (simp add: same_wiring_node_def)
    from process_refs_install_refs [OF refs qB memB]
    show "q \<in> set args"
    proof
      assume "\<exists>n. lookup ?sA q = Some n \<and> p \<in> set (m_refs n)"
      then obtain n where x: "lookup ?sA q = Some n" "p \<in> set (m_refs n)" by blast
      from x(1) have "(if q = ?p then Some ?nA else lookup s q) = Some n" by (simp only: lA)
      with x(2) have "lookup s q = Some n" by (auto split: if_splits)
      with x(2) fresh p have False by (auto simp: is_subscriber_iff)
      then show ?thesis ..
    next
      assume "p = ?p \<and> q \<in> set args"
      then show ?thesis by simp
    qed
  qed
qed

subsection \<open>What set leaves\<close>

lemma leaf_holds_record_event [simp]: "leaf_holds (record_event ev s) p v = leaf_holds s p v"
  by (simp add: leaf_holds_def)

lemma leaf_holds_store_other: "q \<noteq> p \<Longrightarrow> leaf_holds (store q n s) p v = leaf_holds s p v"
  by (simp add: leaf_holds_def lookup_store)

lemma leaf_holds_assign_dirty:
  "assign_dirty q b s = Inr s' \<Longrightarrow> leaf_holds s p v \<Longrightarrow> leaf_holds s' p v"
proof -
  assume a: "assign_dirty q b s = Inr s'" and lf: "leaf_holds s p v"
  from a obtain n e where n: "lookup s q = Some n" "derived n = Some e"
    and s': "s' = store q (n\<lparr>derived := Some (e\<lparr>m_dirty := b\<rparr>)\<rparr>) s"
    by (blast dest: assign_dirty_Inr)
  from lf n have "q \<noteq> p" by (auto simp: leaf_holds_def)
  with lf s' show ?thesis by (simp add: leaf_holds_store_other)
qed

lemma leaf_holds_not_expr:
  "leaf_holds s p v \<Longrightarrow> lookup s q = Some n \<Longrightarrow> derived n = Some e \<Longrightarrow> q \<noteq> p"
  by (auto simp: leaf_holds_def)

lemma leaf_kept:
  "leaf_holds s p v \<longrightarrow> (\<forall>s' y. get k q s = Inr (s', y) \<longrightarrow> leaf_holds s' p v)"
  "leaf_holds s p v \<longrightarrow> q \<noteq> p \<longrightarrow> (\<forall>s'. set_binding k q x s = Inr s' \<longrightarrow> leaf_holds s' p v)"
  "leaf_holds s p v \<longrightarrow> (\<forall>s'. notify k rs s = Inr s' \<longrightarrow> leaf_holds s' p v)"
  "leaf_holds s p v \<longrightarrow> (\<forall>s'. update k q s = Inr s' \<longrightarrow> leaf_holds s' p v)"
  "leaf_holds s p v \<longrightarrow> (\<forall>s' y. dispatch k q rest args s = Inr (s', y) \<longrightarrow> leaf_holds s' p v)"
proof (induction k q s and k q x s and k rs s and k q s and k q rest args s
       rule: get_set_binding_notify_update_dispatch.induct)
  case (1 q s)
  show ?case by simp
next
  case (2 k q s)
  show ?case
  proof (intro allI impI)
    fix s' y
    assume lf: "leaf_holds s p v" and run: "get (Suc k) q s = Inr (s', y)"
    then obtain n where n: "lookup s q = Some n" by (auto split: option.splits)
    let ?s0 = "record_event (Ev_get q) s"
    from lf have lf0: "leaf_holds ?s0 p v" by simp
    show "leaf_holds s' p v"
    proof (cases "derived n")
      case None
      with run n have "s' = ?s0" by (auto dest!: TypedBinding_get_Inr)
      with lf0 show ?thesis by simp
    next
      case (Some e)
      show ?thesis
      proof (cases "m_dirty e")
        case False
        with run n Some have "s' = ?s0" by (auto dest!: TypedBinding_get_Inr)
        with lf0 show ?thesis by simp
      next
        case True
        with run n Some obtain s1 x s2 s3 where
          d: "dispatch k q (m_arguments e) [] ?s0 = Inr (s1, x)"
          and b: "set_binding k q x s1 = Inr s2"
          and a: "assign_dirty q False s2 = Inr s3"
          and g: "TypedBinding_get q s3 = Inr (s', y)"
          by (auto split: sum.splits)
        from "2.IH"(1) [OF n Some True] lf0 d have l1: "leaf_holds s1 p v" by blast
        from lf n Some have "q \<noteq> p" by (rule leaf_holds_not_expr)
        with "2.IH"(2) [OF n Some True d refl] l1 b have "leaf_holds s2 p v" by blast
        with a have "leaf_holds s3 p v" by (rule leaf_holds_assign_dirty)
        moreover from g have "s' = s3" by (auto dest: TypedBinding_get_Inr)
        ultimately show ?thesis by simp
      qed
    qed
  qed
next
  case (3 q x s)
  show ?case by simp
next
  case (4 k q x s)
  show ?case
  proof (intro allI impI)
    fix s'
    assume lf: "leaf_holds s p v" and qp: "q \<noteq> p"
      and run: "set_binding (Suc k) q x s = Inr s'"
    then obtain n where n: "lookup s q = Some n" by (auto split: option.splits)
    let ?s0 = "record_event (Ev_set q x) s"
    show "leaf_holds s' p v"
    proof (cases "different_with n x")
      case False
      with run n have "s' = ?s0" by simp
      with lf show ?thesis by simp
    next
      case True
      let ?s1 = "store q (n\<lparr>m_value := x\<rparr>) ?s0"
      from lf qp have "leaf_holds ?s1 p v" by (simp add: leaf_holds_store_other)
      moreover from True run n have "notify k (m_refs n) ?s1 = Inr s'" by simp
      ultimately show ?thesis using "4.IH" [OF n True] by blast
    qed
  qed
next
  case (5 k s)
  show ?case by simp
next
  case (6 k r rs s)
  show ?case
  proof (intro allI impI)
    fix s'
    assume lf: "leaf_holds s p v" and run: "notify k (r # rs) s = Inr s'"
    then obtain s1 where u: "update k r s = Inr s1" and m: "notify k rs s1 = Inr s'"
      by (auto split: sum.splits)
    from "6.IH"(1) lf u have "leaf_holds s1 p v" by blast
    with "6.IH"(2) [OF u] m show "leaf_holds s' p v" by blast
  qed
next
  case (7 q s)
  show ?case by simp
next
  case (8 k q s)
  show ?case
  proof (intro allI impI)
    fix s'
    assume lf: "leaf_holds s p v" and run: "update (Suc k) q s = Inr s'"
    then obtain n where n: "lookup s q = Some n" by (auto split: option.splits)
    let ?s0 = "record_event (Ev_update q) s"
    from lf have lf0: "leaf_holds ?s0 p v" by simp
    show "leaf_holds s' p v"
    proof (cases "derived n")
      case None
      with run n have "s' = ?s0" by simp
      with lf0 show ?thesis by simp
    next
      case (Some e)
      from lf n Some have qp: "q \<noteq> p" by (rule leaf_holds_not_expr)
      show ?thesis
      proof (cases "m_eval_policy e")
        case Eval_Instant
        with run n Some obtain s1 x where
          d: "dispatch k q (m_arguments e) [] ?s0 = Inr (s1, x)"
          and b: "set_binding k q x s1 = Inr s'"
          by (auto split: sum.splits)
        from "8.IH"(1) [OF n Some Eval_Instant] lf0 d have "leaf_holds s1 p v" by blast
        with "8.IH"(2) [OF n Some Eval_Instant d refl] qp b show ?thesis by blast
      next
        case Eval_Lazy
        with run n Some have "assign_dirty q True ?s0 = Inr s'" by simp
        then show ?thesis using lf0 by (rule leaf_holds_assign_dirty)
      next
        case Eval_Count
        with run n Some have "s' = ?s0" by simp
        with lf0 show ?thesis by simp
      qed
    qed
  qed
next
  case (9 k q a rest args s)
  show ?case
  proof (intro allI impI)
    fix s' y
    assume lf: "leaf_holds s p v" and run: "dispatch k q (a # rest) args s = Inr (s', y)"
    then obtain s1 x where g: "get k a s = Inr (s1, x)"
      and d: "dispatch k q rest (args @ [x]) s1 = Inr (s', y)"
      by (auto split: sum.splits)
    from "9.IH"(1) lf g have "leaf_holds s1 p v" by blast
    with "9.IH"(2) [OF g refl] d show "leaf_holds s' p v" by blast
  qed
next
  case (10 k q args s)
  show ?case by (auto split: option.splits)
qed

lemma update_log:
  assumes "update k r s = Inr s'"
  shows "\<exists>l. log s' = log s @ Ev_update r # l"
proof (cases k)
  case 0
  with assms show ?thesis by simp
next
  case (Suc j)
  with assms obtain n where n: "lookup s r = Some n" by (auto split: option.splits)
  let ?s0 = "record_event (Ev_update r) s"
  show ?thesis
  proof (cases "derived n")
    case None
    with assms Suc n show ?thesis by auto
  next
    case (Some e)
    show ?thesis
    proof (cases "m_eval_policy e")
      case Eval_Instant
      with assms Suc n Some obtain s1 x where
        d: "dispatch j r (m_arguments e) [] ?s0 = Inr (s1, x)"
        and b: "set_binding j r x s1 = Inr s'"
        by (auto split: sum.splits)
      from effect_steps(5) [of j r "m_arguments e" "[]" ?s0] d obtain l1 where
        "log s1 = log ?s0 @ l1" by (auto simp: effect_def)
      moreover from effect_steps(2) [of j r x s1] b obtain l2 where
        "log s' = log s1 @ l2" by (auto simp: effect_def)
      ultimately show ?thesis by simp
    next
      case Eval_Lazy
      with assms Suc n Some have "assign_dirty r True ?s0 = Inr s'" by simp
      then have "log s' = log ?s0" by (auto dest!: assign_dirty_Inr)
      then show ?thesis by simp
    next
      case Eval_Count
      with assms Suc n Some show ?thesis by auto
    qed
  qed
qed

lemma notify_log:
  "notify k rs s = Inr s' \<Longrightarrow>
     \<exists>ls. length ls = length rs
       \<and> log s' = log s @ concat (map2 (\<lambda>r l. Ev_update r # l) rs ls)"
proof (induction rs arbitrary: s)
  case Nil
  then show ?case by simp
next
  case (Cons r rs)
  from Cons.prems obtain s1 where u: "update k r s = Inr s1" and m: "notify k rs s1 = Inr s'"
    by (auto split: sum.splits)
  from update_log [OF u] obtain l where l: "log s1 = log s @ Ev_update r # l" by blast
  from Cons.IH [OF m] obtain ls where ls: "length ls = length rs"
    "log s' = log s1 @ concat (map2 (\<lambda>r l. Ev_update r # l) rs ls)" by blast
  from l ls have "length (l # ls) = length (r # rs)
      \<and> log s' = log s @ concat (map2 (\<lambda>r l. Ev_update r # l) (r # rs) (l # ls))"
    by simp
  then show ?case by blast
qed


lemma notify_after_store:
  assumes n: "lookup s p = Some n"
    and nt: "notify k (m_refs n) (store p (n\<lparr>m_value := v\<rparr>) (record_event (Ev_set p v) s)) = Inr s'"
  shows "same_wiring s s'
         \<and> (\<exists>ls. length ls = length (m_refs n)
               \<and> log s' = (log s @ [Ev_set p v]) @ concat (map2 (\<lambda>r l. Ev_update r # l) (m_refs n) ls)
               \<and> ((\<forall>x. Ev_set p x \<notin> set (concat ls)) \<longrightarrow> read_m_value p s' = Some v))
         \<and> (derived n = None \<longrightarrow> read_m_value p s' = Some v)"
proof -
  let ?s1 = "store p (n\<lparr>m_value := v\<rparr>) (record_event (Ev_set p v) s)"
  have l1: "lookup ?s1 p = Some (n\<lparr>m_value := v\<rparr>)"
    using n by (simp add: lookup_store lookup_Some_less)
  have lg: "log ?s1 = log s @ [Ev_set p v]" by (simp add: store_def record_event_def)
  have w1: "same_wiring s ?s1"
    using effect_set_value [OF n, of "{}" "{}" v] by (simp add: effect_def)
  from effect_steps(3) [of k "m_refs n" ?s1] nt obtain l where l: "effect (set (m_refs n)) {} ?s1 l s'"
    by blast
  from notify_log [OF nt] obtain ls where ls: "length ls = length (m_refs n)"
    "log s' = log ?s1 @ concat (map2 (\<lambda>r l. Ev_update r # l) (m_refs n) ls)" by blast
  from l ls(2) have leq: "l = concat (map2 (\<lambda>r l. Ev_update r # l) (m_refs n) ls)"
    by (simp add: effect_def)
  have sets: "Ev_set p x \<in> set l \<Longrightarrow> Ev_set p x \<in> set (concat ls)" for x
  proof -
    assume "Ev_set p x \<in> set l"
    then obtain r l0 where "(r, l0) \<in> set (zip (m_refs n) ls)" "Ev_set p x \<in> set (Ev_update r # l0)"
      unfolding leq by auto
    then have "l0 \<in> set ls" "Ev_set p x \<in> set l0" by (auto dest: set_zip_rightD)
    then show ?thesis by auto
  qed
  have "read_m_value p ?s1 = Some v" using l1 by (simp add: read_m_value_def)
  with l sets have cond: "(\<forall>x. Ev_set p x \<notin> set (concat ls)) \<longrightarrow> read_m_value p s' = Some v"
    unfolding effect_def by metis
  have leaf: "read_m_value p s' = Some v" if "derived n = None"
  proof -
    from that l1 have "leaf_holds ?s1 p v" by (simp add: leaf_holds_def)
    with leaf_kept(3) [of ?s1 p v k "m_refs n"] nt have "leaf_holds s' p v" by blast
    then show ?thesis by (auto simp: leaf_holds_def read_m_value_def split: option.splits)
  qed
  from l have "same_wiring ?s1 s'" by (simp add: effect_def)
  with w1 have "same_wiring s s'" by (rule same_wiring_trans)
  with ls [unfolded lg] cond leaf show ?thesis by blast
qed

subsection \<open>Releasing handles\<close>

lemma wired_iff:
  "wired s \<longleftrightarrow>
     (\<forall>q n r. lookup s q = Some n \<longrightarrow> r \<in> set (m_refs n) \<longrightarrow>
        (\<exists>nr er. lookup s r = Some nr \<and> derived nr = Some er \<and> q \<in> set (m_arguments er)))"
proof
  assume w: "wired s"
  show "\<forall>q n r. lookup s q = Some n \<longrightarrow> r \<in> set (m_refs n) \<longrightarrow>
        (\<exists>nr er. lookup s r = Some nr \<and> derived nr = Some er \<and> q \<in> set (m_arguments er))"
  proof (intro allI impI)
    fix q n r
    assume q: "lookup s q = Some n" and r: "r \<in> set (m_refs n)"
    then have "q < length (heap s)" "heap s ! q = Some n"
      by (auto simp: lookup_def split: if_splits)
    then have q': "q \<in> set [0..<length (heap s)]" by simp
    from w have "\<forall>q\<in>set [0..<length (heap s)]. case heap s ! q of None \<Rightarrow> True
                 | Some n \<Rightarrow> \<forall>r\<in>set (m_refs n).
                     case lookup s r of None \<Rightarrow> False
                     | Some nr \<Rightarrow> (case derived nr of None \<Rightarrow> False
                                   | Some er \<Rightarrow> q \<in> set (m_arguments er))"
      by (simp only: wired_def list_all_iff)
    from bspec [OF this q'] \<open>heap s ! q = Some n\<close> r
    have "case lookup s r of None \<Rightarrow> False
                   | Some nr \<Rightarrow> (case derived nr of None \<Rightarrow> False
                                 | Some er \<Rightarrow> q \<in> set (m_arguments er))"
      by simp
    then show "\<exists>nr er. lookup s r = Some nr \<and> derived nr = Some er \<and> q \<in> set (m_arguments er)"
      by (auto split: option.splits)
  qed
next
  assume a: "\<forall>q n r. lookup s q = Some n \<longrightarrow> r \<in> set (m_refs n) \<longrightarrow>
        (\<exists>nr er. lookup s r = Some nr \<and> derived nr = Some er \<and> q \<in> set (m_arguments er))"
  show "wired s"
    unfolding wired_def list_all_iff
  proof (intro ballI)
    fix q
    assume "q \<in> set [0..<length (heap s)]"
    then have ql: "q < length (heap s)" by simp
    show "case heap s ! q of None \<Rightarrow> True
          | Some n \<Rightarrow> \<forall>r\<in>set (m_refs n).
              case lookup s r of None \<Rightarrow> False
              | Some nr \<Rightarrow> (case derived nr of None \<Rightarrow> False
                            | Some er \<Rightarrow> q \<in> set (m_arguments er))"
    proof (cases "heap s ! q")
      case None
      then show ?thesis by simp
    next
      case (Some n)
      with ql have "lookup s q = Some n" by (simp add: lookup_def)
      with a have "\<forall>r\<in>set (m_refs n). \<exists>nr er. lookup s r = Some nr \<and> derived nr = Some er
                      \<and> q \<in> set (m_arguments er)" by blast
      with Some show ?thesis by fastforce
    qed
  qed
qed

lemma handles_live_iff:
  "handles_live s \<longleftrightarrow>
     (\<forall>q n e a. lookup s q = Some n \<longrightarrow> derived n = Some e \<longrightarrow> a \<in> set (m_arguments e) \<longrightarrow>
        lookup s a \<noteq> None)"
proof -
  have "handles_live s \<longleftrightarrow>
          (\<forall>n. Some n \<in> set (heap s) \<longrightarrow>
             (\<forall>e. derived n = Some e \<longrightarrow> (\<forall>a\<in>set (m_arguments e). lookup s a \<noteq> None)))"
    unfolding handles_live_def list_all_iff
  proof
    assume h: "\<forall>obj\<in>set (heap s). case obj of None \<Rightarrow> True
                 | Some n \<Rightarrow> (case derived n of None \<Rightarrow> True
                     | Some e \<Rightarrow> \<forall>a\<in>set (m_arguments e). \<not> (lookup s a = None))"
    show "\<forall>n. Some n \<in> set (heap s) \<longrightarrow>
             (\<forall>e. derived n = Some e \<longrightarrow> (\<forall>a\<in>set (m_arguments e). lookup s a \<noteq> None))"
    proof (intro allI impI)
      fix n e
      assume "Some n \<in> set (heap s)" "derived n = Some e"
      with h show "\<forall>a\<in>set (m_arguments e). lookup s a \<noteq> None" by fastforce
    qed
  next
    assume h: "\<forall>n. Some n \<in> set (heap s) \<longrightarrow>
             (\<forall>e. derived n = Some e \<longrightarrow> (\<forall>a\<in>set (m_arguments e). lookup s a \<noteq> None))"
    show "\<forall>obj\<in>set (heap s). case obj of None \<Rightarrow> True
                 | Some n \<Rightarrow> (case derived n of None \<Rightarrow> True
                     | Some e \<Rightarrow> \<forall>a\<in>set (m_arguments e). \<not> (lookup s a = None))"
    proof
      fix obj
      assume "obj \<in> set (heap s)"
      with h show "case obj of None \<Rightarrow> True
                 | Some n \<Rightarrow> (case derived n of None \<Rightarrow> True
                     | Some e \<Rightarrow> \<forall>a\<in>set (m_arguments e). \<not> (lookup s a = None))"
        by (cases obj) (auto split: option.splits)
    qed
  qed
  also have "\<dots> \<longleftrightarrow>
          (\<forall>n. (\<exists>q. lookup s q = Some n) \<longrightarrow>
             (\<forall>e. derived n = Some e \<longrightarrow> (\<forall>a\<in>set (m_arguments e). lookup s a \<noteq> None)))"
    by (simp only: lookup_iff_in_heap)
  finally show ?thesis by blast
qed

lemma lookup_deallocate: "lookup (deallocate h s) q = (if q = h then None else lookup s q)"
  by (auto simp: deallocate_def lookup_def)

lemma live_count_le: "live_count s \<le> length (heap s)"
proof -
  have "{x. \<not> (lookup s x = None)} \<subseteq> {..<length (heap s)}"
    by (auto simp: lookup_def split: if_splits)
  then have "card {x. \<not> (lookup s x = None)} \<le> card {..<length (heap s)}"
    by (intro card_mono) simp_all
  then show ?thesis by (simp add: live_count_def)
qed

lemma live_finite: "finite {x. \<not> (lookup s x = None)}"
proof -
  have "{x. \<not> (lookup s x = None)} \<subseteq> {..<length (heap s)}"
    by (auto simp: lookup_def split: if_splits)
  then show ?thesis by (rule finite_subset) simp
qed

lemma live_count_destroy:
  assumes "lookup s h \<noteq> None"
    and "\<forall>q. (lookup s2 q = None) = (q = h \<or> lookup s q = None)"
  shows "live_count s2 < live_count s"
proof -
  have "{x. \<not> (lookup s2 x = None)} = {x. \<not> (lookup s x = None)} - {h}"
    using assms(2) by auto
  moreover have "h \<in> {x. \<not> (lookup s x = None)}" using assms(1) by simp
  ultimately show ?thesis
    unfolding live_count_def using live_finite [of s]
    by (simp only: card_Diff1_less)
qed

lemma releasedI:
  assumes "wired s'" "handles_live s'" "log s' = log s" "length (heap s') = length (heap s)"
    and "\<And>x. lookup s x = None \<Longrightarrow> lookup s' x = None"
    and "\<And>x. x \<in> set holders \<Longrightarrow> lookup s' x = None \<Longrightarrow> lookup s x = None"
    and "\<And>x n'. lookup s' x = Some n' \<Longrightarrow>
            \<exists>n. lookup s x = Some n
               \<and> n' = n\<lparr>m_refs := filter (\<lambda>r. \<not> (lookup s' r = None)) (m_refs n)\<rparr>"
  shows "released holders s s'"
  unfolding released_def using assms by blast

lemma releasedD:
  assumes "released holders s s'"
  shows "wired s'" "handles_live s'" "log s' = log s" "length (heap s') = length (heap s)"
    and "\<And>x. lookup s x = None \<Longrightarrow> lookup s' x = None"
    and "\<And>x. x \<in> set holders \<Longrightarrow> lookup s' x = None \<Longrightarrow> lookup s x = None"
    and "\<And>x n'. lookup s' x = Some n' \<Longrightarrow>
            \<exists>n. lookup s x = Some n
               \<and> n' = n\<lparr>m_refs := filter (\<lambda>r. \<not> (lookup s' r = None)) (m_refs n)\<rparr>"
  using assms unfolding released_def by blast+

lemma wired_live:
  "wired s \<Longrightarrow> lookup s q = Some n \<Longrightarrow> r \<in> set (m_refs n) \<Longrightarrow> \<not> (lookup s r = None)"
  unfolding wired_iff by fastforce

lemma released_refl:
  assumes "wired s" "handles_live s"
  shows "released holders s s"
proof -
  have "n = n\<lparr>m_refs := filter (\<lambda>r. \<not> (lookup s r = None)) (m_refs n)\<rparr>"
    if "lookup s x = Some n" for x n
  proof -
    from assms(1) that have "\<forall>r\<in>set (m_refs n). \<not> (lookup s r = None)"
      by (blast dest: wired_live)
    then have "filter (\<lambda>r. \<not> (lookup s r = None)) (m_refs n) = m_refs n"
      by (simp add: filter_id_conv)
    then show ?thesis by simp
  qed
  with assms show ?thesis by (intro releasedI) simp_all
qed

lemma released_trans:
  assumes "released holders s s2" "released holders s2 s'"
  shows "released holders s s'"
proof (rule releasedI)
  show "wired s'" "handles_live s'" using assms(2) by (rule releasedD)+
  show "log s' = log s" using releasedD(3) [OF assms(1)] releasedD(3) [OF assms(2)] by simp
  show "length (heap s') = length (heap s)"
    using releasedD(4) [OF assms(1)] releasedD(4) [OF assms(2)] by simp
  show "lookup s' x = None" if "lookup s x = None" for x
    using that by (intro releasedD(5) [OF assms(2)] releasedD(5) [OF assms(1)])
  show "lookup s x = None" if "x \<in> set holders" "lookup s' x = None" for x
    using that by (intro releasedD(6) [OF assms(1)] releasedD(6) [OF assms(2)])
  show "\<exists>n. lookup s x = Some n
          \<and> n' = n\<lparr>m_refs := filter (\<lambda>r. \<not> (lookup s' r = None)) (m_refs n)\<rparr>"
    if x: "lookup s' x = Some n'" for x n'
  proof -
    from releasedD(7) [OF assms(2) x] obtain n2 where n2: "lookup s2 x = Some n2"
      "n' = n2\<lparr>m_refs := filter (\<lambda>r. \<not> (lookup s' r = None)) (m_refs n2)\<rparr>"
      by blast
    from releasedD(7) [OF assms(1) n2(1)] obtain n where n: "lookup s x = Some n"
      "n2 = n\<lparr>m_refs := filter (\<lambda>r. \<not> (lookup s2 r = None)) (m_refs n)\<rparr>"
      by blast
    have "filter (\<lambda>r. \<not> (lookup s' r = None)) (filter (\<lambda>r. \<not> (lookup s2 r = None)) (m_refs n))
            = filter (\<lambda>r. \<not> (lookup s' r = None)) (m_refs n)"
    proof -
      have "(\<not> (lookup s2 r = None) \<and> \<not> (lookup s' r = None)) = (\<not> (lookup s' r = None))" for r
        using releasedD(5) [OF assms(2), of r] by (cases "lookup s2 r") auto
      then show ?thesis by (simp only: filter_filter)
    qed
    with n n2 show ?thesis by simp
  qed
qed

lemma destroy_props:
  assumes w: "wired s" and hl: "handles_live s" and live: "lookup s h = Some n"
    and ni: "\<not> is_input s h" and hn: "h \<notin> set holders"
    and a: "\<forall>q. lookup s2 q =
              (if q = h then None
               else map_option (\<lambda>n. n\<lparr>m_refs := filter (\<lambda>ref. \<not> (ref = h)) (m_refs n)\<rparr>)
                      (lookup s q))"
    and len: "length (heap s2) = length (heap s)" and lg: "log s2 = log s"
  shows "released holders s s2 \<and> live_count s2 < live_count s"
proof -
  let ?F = "\<lambda>n. n\<lparr>m_refs := filter (\<lambda>ref. \<not> (ref = h)) (m_refs n)\<rparr>"
  have none: "(lookup s2 q = None) = (q = h \<or> lookup s q = None)" for q
    using a by (cases "lookup s q") simp_all
  have some: "lookup s2 q = Some n' \<Longrightarrow> q \<noteq> h \<and> (\<exists>nq. lookup s q = Some nq \<and> n' = ?F nq)" for q n'
    using a by (cases "lookup s q") (auto split: if_splits)
  have w2: "wired s2"
    unfolding wired_iff
  proof (intro allI impI)
    fix q n' r
    assume q: "lookup s2 q = Some n'" and r: "r \<in> set (m_refs n')"
    from some [OF q] obtain nq where qh: "q \<noteq> h" and nq: "lookup s q = Some nq" "n' = ?F nq"
      by blast
    with r have rh: "r \<noteq> h" and "r \<in> set (m_refs nq)" by auto
    with w nq(1) obtain nr er where nr: "lookup s r = Some nr" "derived nr = Some er"
      "q \<in> set (m_arguments er)" unfolding wired_iff by blast
    from rh nr(1) a have "lookup s2 r = Some (?F nr)" by simp
    with nr show "\<exists>nr er. lookup s2 r = Some nr \<and> derived nr = Some er \<and> q \<in> set (m_arguments er)"
      by auto
  qed
  have hl2: "handles_live s2"
    unfolding handles_live_iff
  proof (intro allI impI)
    fix q n' e x
    assume q: "lookup s2 q = Some n'" and e: "derived n' = Some e" and x: "x \<in> set (m_arguments e)"
    from some [OF q] obtain nq where nq: "lookup s q = Some nq" "n' = ?F nq" by blast
    with e have e': "derived nq = Some e" by simp
    with hl nq(1) x have "lookup s x \<noteq> None" unfolding handles_live_iff by blast
    moreover from nq(1) e' x ni have "x \<noteq> h" by (auto dest: is_input_lookup)
    ultimately show "lookup s2 x \<noteq> None" by (simp add: none)
  qed
  have last: "\<exists>nq. lookup s x = Some nq
          \<and> n' = nq\<lparr>m_refs := filter (\<lambda>r. \<not> (lookup s2 r = None)) (m_refs nq)\<rparr>"
    if x: "lookup s2 x = Some n'" for x n'
  proof -
    from some [OF x] obtain nq where nq: "lookup s x = Some nq" "n' = ?F nq" by blast
    from w nq(1) have "\<forall>r\<in>set (m_refs nq). \<not> (lookup s r = None)" by (blast dest: wired_live)
    then have "filter (\<lambda>r. \<not> (lookup s2 r = None)) (m_refs nq)
                 = filter (\<lambda>ref. \<not> (ref = h)) (m_refs nq)"
      by (intro filter_cong) (auto simp: none)
    with nq show ?thesis by simp
  qed
  have "released holders s s2"
  proof (rule releasedI)
    show "wired s2" "handles_live s2" "log s2 = log s" "length (heap s2) = length (heap s)"
      by (fact w2 hl2 lg len)+
    show "lookup s2 x = None" if "lookup s x = None" for x using that by (simp add: none)
    show "lookup s x = None" if "x \<in> set holders" "lookup s2 x = None" for x
      using that hn by (auto simp: none)
    show "\<exists>nq. lookup s x = Some nq
          \<and> n' = nq\<lparr>m_refs := filter (\<lambda>r. \<not> (lookup s2 r = None)) (m_refs nq)\<rparr>"
      if "lookup s2 x = Some n'" for x n'
      using that by (rule last)
  qed
  moreover have "live_count s2 < live_count s"
    using live none by (intro live_count_destroy) auto
  ultimately show ?thesis by blast
qed

lemma remove_absent:
  "h \<notin> set (m_refs n) \<Longrightarrow> n\<lparr>m_refs := filter (\<lambda>ref. \<not> (ref = h)) (m_refs n)\<rparr> = n"
proof -
  assume "h \<notin> set (m_refs n)"
  then have "filter (\<lambda>ref. \<not> (ref = h)) (m_refs n) = m_refs n" by (auto simp: filter_id_conv)
  then show ?thesis by simp
qed

lemma destroy_lookup:
  assumes w: "wired s" and live: "lookup s h = Some n"
    and args: "\<forall>e. derived n = Some e \<longrightarrow> set (m_arguments e) \<subseteq> set inputs"
    and s1: "\<forall>q. lookup s1 q =
               (if q \<in> set inputs
                then map_option (\<lambda>n. n\<lparr>m_refs := filter (\<lambda>ref. \<not> (ref = h)) (m_refs n)\<rparr>)
                       (lookup s q)
                else lookup s q)"
  shows "lookup (deallocate h s1) q =
              (if q = h then None
               else map_option (\<lambda>n. n\<lparr>m_refs := filter (\<lambda>ref. \<not> (ref = h)) (m_refs n)\<rparr>)
                      (lookup s q))"
proof (cases "q = h \<or> q \<in> set inputs \<or> lookup s q = None")
  case True
  then show ?thesis using s1 by (auto simp: lookup_deallocate)
next
  case False
  then obtain nq where nq: "lookup s q = Some nq" by auto
  have "h \<notin> set (m_refs nq)"
  proof
    assume "h \<in> set (m_refs nq)"
    with w nq obtain nr er where "lookup s h = Some nr" "derived nr = Some er"
      "q \<in> set (m_arguments er)" unfolding wired_iff by blast
    with live args False show False by auto
  qed
  then have "nq\<lparr>m_refs := filter (\<lambda>ref. \<not> (ref = h)) (m_refs nq)\<rparr> = nq" by (rule remove_absent)
  with False nq s1 show ?thesis by (simp add: lookup_deallocate)
qed

lemma release_ok:
  "wired s \<Longrightarrow> handles_live s \<Longrightarrow> \<forall>h\<in>set pending. lookup s h \<noteq> None \<Longrightarrow>
     live_count s \<le> k \<Longrightarrow>
     \<exists>s'. release k holders pending s = Inr s' \<and> released holders s s'"
proof (induction k holders pending s rule: release.induct)
  case (1 k holders s)
  then show ?case by (simp add: released_refl)
next
  case (2 k holders h pending s)
  note w = "2.prems"(1) and hl = "2.prems"(2) and pl = "2.prems"(3) and fuel = "2.prems"(4)
  show ?case
  proof (cases "h \<in> set holders \<or> h \<in> set pending \<or> is_input s h")
    case True
    from pl have "\<forall>h\<in>set pending. lookup s h \<noteq> None" by simp
    from "2.IH"(1) [OF True w hl this fuel] True show ?thesis by simp
  next
    case False
    from pl obtain n where n: "lookup s h = Some n" by auto
    then have "h \<in> {x. \<not> (lookup s x = None)}" by simp
    with live_finite [of s] have "0 < live_count s"
      unfolding live_count_def by (auto simp: card_gt_0_iff)
    with fuel obtain j where k: "k = Suc j" by (cases k) auto
    from False have ni: "\<not> is_input s h" and hn: "h \<notin> set holders" and hp: "h \<notin> set pending"
      by simp_all
    show ?thesis
    proof (cases "derived n")
      case None
      let ?s2 = "deallocate h s"
      have lk: "\<forall>q. lookup ?s2 q =
              (if q = h then None
               else map_option (\<lambda>n. n\<lparr>m_refs := filter (\<lambda>ref. \<not> (ref = h)) (m_refs n)\<rparr>)
                      (lookup s q))"
        using destroy_lookup [OF w n, of "[]" s] None by simp
      have "length (heap ?s2) = length (heap s)" "log ?s2 = log s"
        by (simp_all add: deallocate_def)
      from destroy_props [OF w hl n ni hn lk this]
      have rel: "released holders s ?s2" and cnt: "live_count ?s2 < live_count s" by blast+
      from pl hp have "\<forall>x\<in>set pending. lookup ?s2 x \<noteq> None"
        by (auto simp: lookup_deallocate)
      moreover from cnt fuel k have "live_count ?s2 \<le> j" by simp
      ultimately obtain s' where "release j holders pending ?s2 = Inr s'"
        "released holders ?s2 s'"
        using "2.IH"(2) [OF False k n None releasedD(1,2) [OF rel]] by blast
      with rel False k n None show ?thesis
        by (auto intro: released_trans)
    next
      case (Some e)
      from hl n Some have al: "\<forall>a\<in>set (m_arguments e). lookup s a \<noteq> None"
        unfolding handles_live_iff by blast
      from process_refs_uninstall [OF al, of h] obtain s1 where
        run: "process_refs False h (m_arguments e) s = Inr s1" and lg: "log s1 = log s"
        and len: "length (heap s1) = length (heap s)"
        and l1: "\<forall>q. lookup s1 q =
               (if q \<in> set (m_arguments e)
                then map_option (\<lambda>n. n\<lparr>m_refs := filter (\<lambda>ref. \<not> (ref = h)) (m_refs n)\<rparr>)
                       (lookup s q)
                else lookup s q)"
        by blast
      let ?s2 = "deallocate h s1"
      have lk: "\<forall>q. lookup ?s2 q =
              (if q = h then None
               else map_option (\<lambda>n. n\<lparr>m_refs := filter (\<lambda>ref. \<not> (ref = h)) (m_refs n)\<rparr>)
                      (lookup s q))"
        using destroy_lookup [OF w n _ l1] Some by simp
      have "length (heap ?s2) = length (heap s)" "log ?s2 = log s"
        using len lg by (simp_all add: deallocate_def)
      from destroy_props [OF w hl n ni hn lk this]
      have rel: "released holders s ?s2" and cnt: "live_count ?s2 < live_count s" by blast+
      have "h \<notin> set (m_arguments e)"
        using n Some ni by (auto dest: is_input_lookup)
      with al pl hp lk have "\<forall>x\<in>set (m_arguments e @ pending). lookup ?s2 x \<noteq> None"
        by auto
      moreover from cnt fuel k have "live_count ?s2 \<le> j" by simp
      ultimately obtain s' where "release j holders (m_arguments e @ pending) ?s2 = Inr s'"
        "released holders ?s2 s'"
        using "2.IH"(3) [OF False k n Some run releasedD(1,2) [OF rel]] by blast
      with rel False k n Some run show ?thesis
        by (auto intro: released_trans)
    qed
  qed
qed

section \<open>The claims\<close>

lemmas eval_defs =
  bind_result_def new_TypedBindedValue_def operator_plus_def new_TypedBindedExpr_def alloc_def
  empty_state_def lookup_def store_def record_event_def different_with_def different_with_by_def
  read_eval_policy_def assign_dirty_def install_ref_def uninstall_ref_def
  TypedBinding_get_def std_plus_def assign_eval_policy_def read_m_value_def is_dirty_def
  leaf_node_def sum_node_def sum_state_def sum_constructed_def two_leaves_def
  sum_state_policy_def plus_node_def diamond_state_def deallocate_def is_input_def

text \<open>
  C1. On a live node \<open>n\<close> at \<open>p\<close>, \<open>set(v)\<close> looks at \<open>different_with n v\<close>.

  When it holds, \<open>set\<close> is the walk over \<open>m_refs\<close>, first entry to last, that runs
  \<open>update\<close> on each entry on the store the one before left (a failure ends the walk),
  started on the store \<open>s1\<close> in which \<open>p\<close> holds \<open>n\<close> with \<open>m_value\<close> replaced by \<open>v\<close>,
  every other address holds what it held, and the history has one more entry, that of
  this call. When \<open>set\<close> returns, the objects, policies, subscriber lists and inputs
  are the ones before; the history after this call's entry is, for each subscriber in
  list order, the entry of its \<open>update\<close> followed by what that \<open>update\<close> did; \<open>p\<close>
  holds \<open>v\<close> unless one of these updates called \<open>set\<close> on \<open>p\<close> again, and a node that is
  no expression holds \<open>v\<close> in any case.

  When it does not hold, \<open>set\<close> returns the store as it was: only the history has the
  entry of this call, so no object has changed and no \<open>update\<close> has run.
\<close>

theorem set_binding_iff_different:
  assumes "lookup s p = Some n"
  shows "(different_with n v \<longrightarrow>
           (\<exists>s1. set_binding (Suc k) p v s =
                    foldl (\<lambda>acc ref. case acc of Inl err \<Rightarrow> Inl err | Inr s' \<Rightarrow> update k ref s')
                      (Inr s1) (m_refs n)
               \<and> lookup s1 p = Some (n\<lparr>m_value := v\<rparr>)
               \<and> (\<forall>q. q \<noteq> p \<longrightarrow> lookup s1 q = lookup s q)
               \<and> length (heap s1) = length (heap s) \<and> log s1 = log s @ [Ev_set p v]
               \<and> (\<forall>s'. set_binding (Suc k) p v s = Inr s' \<longrightarrow>
                     same_wiring s s'
                     \<and> (\<exists>ls. length ls = length (m_refs n)
                           \<and> log s' = log s1 @ concat (map2 (\<lambda>r l. Ev_update r # l) (m_refs n) ls)
                           \<and> ((\<forall>x. Ev_set p x \<notin> set (concat ls)) \<longrightarrow>
                                 read_m_value p s' = Some v))
                     \<and> (derived n = None \<longrightarrow> read_m_value p s' = Some v))))
         \<and> (\<not> different_with n v \<longrightarrow>
               set_binding (Suc k) p v s = Inr (s\<lparr>log := log s @ [Ev_set p v]\<rparr>))"
proof (intro conjI impI)
  assume d: "different_with n v"
  let ?step = "\<lambda>acc ref. case acc of Inl err \<Rightarrow> Inl err | Inr s' \<Rightarrow> update k ref s'"
  let ?s1 = "s\<lparr>heap := (heap s)[p := Some (n\<lparr>m_value := v\<rparr>)], log := log s @ [Ev_set p v]\<rparr>"
  have stuck: "foldl ?step (Inl err) rs = Inl err" for err :: error and rs
    by (induction rs) simp_all
  have walk: "notify k rs s0 = foldl ?step (Inr s0) rs" for rs s0
  proof (induction rs arbitrary: s0)
    case Nil
    show ?case by simp
  next
    case (Cons r rs)
    show ?case by (cases "update k r s0") (simp_all add: Cons.IH stuck)
  qed
  have written: "store p (n\<lparr>m_value := v\<rparr>) (record_event (Ev_set p v) s) = ?s1"
    by (simp add: store_def record_event_def)
  have run: "set_binding (Suc k) p v s = notify k (m_refs n) ?s1"
    using assms d by (simp add: written)
  have l1: "lookup ?s1 p = Some (n\<lparr>m_value := v\<rparr>)"
    using lookup_Some_less [OF assms] by (simp add: lookup_def)
  have l2: "\<forall>q. q \<noteq> p \<longrightarrow> lookup ?s1 q = lookup s q" by (simp add: lookup_def)
  have post: "same_wiring s s'
      \<and> (\<exists>ls. length ls = length (m_refs n)
            \<and> log s' = log ?s1 @ concat (map2 (\<lambda>r l. Ev_update r # l) (m_refs n) ls)
            \<and> ((\<forall>x. Ev_set p x \<notin> set (concat ls)) \<longrightarrow> read_m_value p s' = Some v))
      \<and> (derived n = None \<longrightarrow> read_m_value p s' = Some v)"
    if ret: "set_binding (Suc k) p v s = Inr s'" for s'
  proof -
    from ret run have "notify k (m_refs n) ?s1 = Inr s'" by simp
    then have "notify k (m_refs n) (store p (n\<lparr>m_value := v\<rparr>) (record_event (Ev_set p v) s)) = Inr s'"
      by (simp only: written)
    from notify_after_store [OF assms this] show ?thesis by simp
  qed
  have "set_binding (Suc k) p v s = foldl ?step (Inr ?s1) (m_refs n)
        \<and> lookup ?s1 p = Some (n\<lparr>m_value := v\<rparr>)
        \<and> (\<forall>q. q \<noteq> p \<longrightarrow> lookup ?s1 q = lookup s q)
        \<and> length (heap ?s1) = length (heap s) \<and> log ?s1 = log s @ [Ev_set p v]
        \<and> (\<forall>s'. set_binding (Suc k) p v s = Inr s' \<longrightarrow>
              same_wiring s s'
              \<and> (\<exists>ls. length ls = length (m_refs n)
                    \<and> log s' = log ?s1 @ concat (map2 (\<lambda>r l. Ev_update r # l) (m_refs n) ls)
                    \<and> ((\<forall>x. Ev_set p x \<notin> set (concat ls)) \<longrightarrow>
                          read_m_value p s' = Some v))
              \<and> (derived n = None \<longrightarrow> read_m_value p s' = Some v))"
    using run walk [of "m_refs n" ?s1] l1 l2 post by simp
  then show "\<exists>s1. set_binding (Suc k) p v s =
                    foldl (\<lambda>acc ref. case acc of Inl err \<Rightarrow> Inl err | Inr s' \<Rightarrow> update k ref s')
                      (Inr s1) (m_refs n)
               \<and> lookup s1 p = Some (n\<lparr>m_value := v\<rparr>)
               \<and> (\<forall>q. q \<noteq> p \<longrightarrow> lookup s1 q = lookup s q)
               \<and> length (heap s1) = length (heap s) \<and> log s1 = log s @ [Ev_set p v]
               \<and> (\<forall>s'. set_binding (Suc k) p v s = Inr s' \<longrightarrow>
                     same_wiring s s'
                     \<and> (\<exists>ls. length ls = length (m_refs n)
                           \<and> log s' = log s1 @ concat (map2 (\<lambda>r l. Ev_update r # l) (m_refs n) ls)
                           \<and> ((\<forall>x. Ev_set p x \<notin> set (concat ls)) \<longrightarrow>
                                 read_m_value p s' = Some v))
                     \<and> (derived n = None \<longrightarrow> read_m_value p s' = Some v))"
    by (rule exI [where x = ?s1])
next
  assume "\<not> different_with n v"
  with assms show "set_binding (Suc k) p v s = Inr (s\<lparr>log := log s @ [Ev_set p v]\<rparr>)"
    by (simp add: record_event_def)
qed

theorem set_binding_iff_different_witness:
  "lookup sum_constructed 0 = Some (leaf_node 1 [2])
   \<and> different_with (leaf_node 1 [2]) 3
   \<and> set_binding 3 0 3 sum_constructed =
       Inr (sum_state 3 5 Eval_Instant True
              (log sum_constructed
               @ [Ev_set 0 3, Ev_update 2, Ev_get 0, Ev_get 1, Ev_function 2 [3, 2], Ev_set 2 5]))
   \<and> read_m_value 0
        (sum_state 3 5 Eval_Instant True
           (log sum_constructed
            @ [Ev_set 0 3, Ev_update 2, Ev_get 0, Ev_get 1, Ev_function 2 [3, 2], Ev_set 2 5])) =
       Some 3
   \<and> \<not> different_with (leaf_node 1 [2]) 1
   \<and> set_binding 3 0 1 sum_constructed =
       Inr (sum_constructed\<lparr>log := log sum_constructed @ [Ev_set 0 1]\<rparr>)"
proof -
  let ?s' = "sum_state 3 5 Eval_Instant True
              (log sum_constructed
               @ [Ev_set 0 3, Ev_update 2, Ev_get 0, Ev_get 1, Ev_function 2 [3, 2], Ev_set 2 5])"
  have h: "lookup sum_constructed 0 = Some (leaf_node 1 [2])"
    by (simp add: eval_defs)
  have d: "different_with (leaf_node 1 [2]) 3" "\<not> different_with (leaf_node 1 [2]) 1"
    "derived (leaf_node 1 [2]) = None"
    by (simp_all add: eval_defs)
  have k: "(3::nat) = Suc 2" by simp
  have r: "set_binding 3 0 3 sum_constructed = Inr ?s'"
    by (simp add: eval_defs eval_nat_numeral)
  from set_binding_iff_different [OF h, of 3 2] d r [unfolded k]
  have v: "read_m_value 0 ?s' = Some 3"
    by blast
  from set_binding_iff_different [OF h, of 1 2] d
  have "set_binding (Suc 2) 0 1 sum_constructed =
          Inr (sum_constructed\<lparr>log := log sum_constructed @ [Ev_set 0 1]\<rparr>)"
    by blast
  then have r0: "set_binding 3 0 1 sum_constructed =
          Inr (sum_constructed\<lparr>log := log sum_constructed @ [Ev_set 0 1]\<rparr>)"
    by (simp only: k)
  from h d(1,2) r v r0 show ?thesis by blast
qed



text \<open>
  C3, as amended. On an expression with policy \<open>Instant\<close> whose dirty flag is clear,
  \<open>get\<close> returns the cached value and leaves the store as it was: the history has the
  entry of this call of \<open>get\<close> and nothing else, so no function was called, \<open>set\<close> was
  not called and nothing was notified. The two parts of the claim that are left out are
  refuted below: the first \<open>get\<close> after construction finds the flag set, and the cached
  value need not be current.
\<close>

theorem instant_get_clean:
  assumes "lookup s p = Some n" "derived n = Some e" "m_eval_policy e = Eval_Instant"
    and "\<not> m_dirty e"
  shows "get (Suc k) p s = Inr (s\<lparr>log := log s @ [Ev_get p]\<rparr>, m_value n)"
  using assms by (simp add: TypedBinding_get_def record_event_def)

theorem instant_get_clean_witness:
  "lookup (sum_state 1 3 Eval_Instant False []) 2 = Some (sum_node 3 Eval_Instant False)
   \<and> get (Suc 0) 2 (sum_state 1 3 Eval_Instant False []) =
       Inr (sum_state 1 3 Eval_Instant False [Ev_get 2], 3)"
proof -
  let ?e = "\<lparr>m_eval_policy = Eval_Instant, m_function = std_plus, m_arguments = [0, 1],
             m_dirty = False\<rparr>"
  have h: "lookup (sum_state 1 3 Eval_Instant False []) 2 = Some (sum_node 3 Eval_Instant False)"
    "derived (sum_node 3 Eval_Instant False) = Some ?e" "m_eval_policy ?e = Eval_Instant"
    "\<not> m_dirty ?e"
    by (simp_all add: lookup_def sum_state_def sum_node_def)
  from instant_get_clean [OF h, of 0] h(1) show ?thesis
    by (simp add: sum_state_def sum_node_def)
qed

text \<open>
  C3 as stated fails in two ways. First, on the first \<open>get\<close> after construction:
  \<open>construct_sum\<close> leaves \<open>e\<close> with policy \<open>Instant\<close> and the dirty flag set; \<open>get\<close> on
  \<open>e\<close> then reads both inputs, calls the function, calls \<open>set\<close> and clears the flag.
  Second, the cached value need not be current: in \<open>stale_read\<close> the expression \<open>y\<close> is
  under \<open>Instant\<close> with the flag clear, its input \<open>x\<close> is under \<open>Lazy\<close> and has been made
  dirty by \<open>a = 3\<close>; \<open>get\<close> on \<open>y\<close> returns the cached 5, while its inputs read right
  after give 5 and 2, whose sum is 7.
\<close>

theorem instant_get_recomputes_or_is_stale:
  "construct_sum 3 = Inr (sum_constructed, 2)
   \<and> read_eval_policy 2 sum_constructed = Inr Eval_Instant
   \<and> is_dirty sum_constructed 2
   \<and> get 2 2 sum_constructed =
       Inr (sum_state 1 3 Eval_Instant False
              (log sum_constructed
               @ [Ev_get 2, Ev_get 0, Ev_get 1, Ev_function 2 [1, 2], Ev_set 2 3]), 3)
   \<and> get 2 2 sum_constructed \<noteq> Inr (sum_constructed\<lparr>log := log sum_constructed @ [Ev_get 2]\<rparr>, 3)
   \<and> stale_read 5 = Inr (True, False, 5, 5, 2)
   \<and> std_plus [5, 2 :: int] = 7"
  by (simp add: construct_sum_def stale_read_def eval_defs eval_nat_numeral)

text \<open>
  C4. Both in the order of main (policy \<open>Lazy\<close>, read, \<open>a = 3\<close>) and in the order of the
  specification (read, policy \<open>Lazy\<close>, \<open>a = 3\<close>), with a call depth of two or more: the
  first read of \<open>e\<close> gives 3; after \<open>a.set(3)\<close> the cached value of \<open>e\<close> is still 3 and
  its dirty flag is set; the next read gives 5 and leaves the flag clear.
\<close>

theorem lazy_scenario:
  "main_block2 (Suc (Suc k)) = Inr (3, Some 3, True, 5, False)
   \<and> lazy_coalescing (Suc (Suc k)) = Inr (3, Some 3, True, 5, False)"
  by (simp add: main_block2_def lazy_coalescing_def construct_sum_def eval_defs)

text \<open>
  C5. Over any \<open>operator!=\<close> and \<open>operator==\<close> of \<open>T\<close>, \<open>different_with\<close> on a node with
  policy \<open>NotEqual\<close> is \<open>m_value != v\<close>, with policy \<open>Equal\<close> it is \<open>!(m_value == v)\<close>,
  with policy \<open>Always\<close> and with the sentinel \<open>Count\<close> it is true, also for \<open>v\<close> the stored
  value; the program's \<open>different_with\<close> is the instance for equality. So \<open>set\<close> on a
  live node with policy \<open>Count\<close>, for every \<open>v\<close>, is the walk of \<open>update\<close> over the
  subscribers started on the store in which the node holds \<open>v\<close>, and when it returns the
  history shows the \<open>update\<close> of every subscriber, in list order.
\<close>

theorem different_with_policy:
  "different_with_by op_ne op_eq (m\<lparr>m_comp_policy := Comp_NotEqual\<rparr>) v = op_ne (m_value m) v
   \<and> different_with_by op_ne op_eq (m\<lparr>m_comp_policy := Comp_Equal\<rparr>) v = (\<not> op_eq (m_value m) v)
   \<and> different_with_by op_ne op_eq (m\<lparr>m_comp_policy := Comp_Always\<rparr>) v
   \<and> different_with_by op_ne op_eq (m\<lparr>m_comp_policy := Comp_Always\<rparr>) (m_value m)
   \<and> different_with_by op_ne op_eq (m\<lparr>m_comp_policy := Comp_Count\<rparr>) v
   \<and> different_with_by op_ne op_eq (m\<lparr>m_comp_policy := Comp_Count\<rparr>) (m_value m)
   \<and> different_with m v = different_with_by (\<lambda>a b. a \<noteq> b) (\<lambda>a b. a = b) m v
   \<and> (lookup s p = Some n \<and> m_comp_policy n = Comp_Count \<longrightarrow>
        (\<exists>s1. set_binding (Suc k) p v s =
                 foldl (\<lambda>acc ref. case acc of Inl err \<Rightarrow> Inl err | Inr s' \<Rightarrow> update k ref s')
                   (Inr s1) (m_refs n)
            \<and> lookup s1 p = Some (n\<lparr>m_value := v\<rparr>)
            \<and> (\<forall>q. q \<noteq> p \<longrightarrow> lookup s1 q = lookup s q)
            \<and> length (heap s1) = length (heap s) \<and> log s1 = log s @ [Ev_set p v]
            \<and> (\<forall>s'. set_binding (Suc k) p v s = Inr s' \<longrightarrow>
                  (\<exists>ls. length ls = length (m_refs n)
                     \<and> log s' = log s1 @ concat (map2 (\<lambda>r l. Ev_update r # l) (m_refs n) ls)))))"
proof -
  have set_part: "\<exists>s1. set_binding (Suc k) p v s =
                 foldl (\<lambda>acc ref. case acc of Inl err \<Rightarrow> Inl err | Inr s' \<Rightarrow> update k ref s')
                   (Inr s1) (m_refs n)
            \<and> lookup s1 p = Some (n\<lparr>m_value := v\<rparr>)
            \<and> (\<forall>q. q \<noteq> p \<longrightarrow> lookup s1 q = lookup s q)
            \<and> length (heap s1) = length (heap s) \<and> log s1 = log s @ [Ev_set p v]
            \<and> (\<forall>s'. set_binding (Suc k) p v s = Inr s' \<longrightarrow>
                  (\<exists>ls. length ls = length (m_refs n)
                     \<and> log s' = log s1 @ concat (map2 (\<lambda>r l. Ev_update r # l) (m_refs n) ls)))"
    if "lookup s p = Some n \<and> m_comp_policy n = Comp_Count"
  proof -
    from that have n: "lookup s p = Some n" and d: "different_with n v"
      by (simp_all add: different_with_def different_with_by_def)
    let ?step = "\<lambda>acc ref. case acc of Inl err \<Rightarrow> Inl err | Inr s' \<Rightarrow> update k ref s'"
    let ?s1 = "s\<lparr>heap := (heap s)[p := Some (n\<lparr>m_value := v\<rparr>)], log := log s @ [Ev_set p v]\<rparr>"
    have stuck: "foldl ?step (Inl err) rs = Inl err" for err :: error and rs
      by (induction rs) simp_all
    have walk: "notify k rs s0 = foldl ?step (Inr s0) rs" for rs s0
    proof (induction rs arbitrary: s0)
      case Nil
      show ?case by simp
    next
      case (Cons r rs)
      show ?case by (cases "update k r s0") (simp_all add: Cons.IH stuck)
    qed
    have written: "store p (n\<lparr>m_value := v\<rparr>) (record_event (Ev_set p v) s) = ?s1"
      by (simp add: store_def record_event_def)
    have run: "set_binding (Suc k) p v s = notify k (m_refs n) ?s1"
      using n d by (simp add: written)
    have l1: "lookup ?s1 p = Some (n\<lparr>m_value := v\<rparr>)"
      using lookup_Some_less [OF n] by (simp add: lookup_def)
    have l2: "\<forall>q. q \<noteq> p \<longrightarrow> lookup ?s1 q = lookup s q" by (simp add: lookup_def)
    have post: "\<exists>ls. length ls = length (m_refs n)
              \<and> log s' = log ?s1 @ concat (map2 (\<lambda>r l. Ev_update r # l) (m_refs n) ls)"
      if ret: "set_binding (Suc k) p v s = Inr s'" for s'
    proof -
      from ret run have "notify k (m_refs n) ?s1 = Inr s'" by simp
      from notify_log [OF this] show ?thesis .
    qed
    have "set_binding (Suc k) p v s = foldl ?step (Inr ?s1) (m_refs n)
          \<and> lookup ?s1 p = Some (n\<lparr>m_value := v\<rparr>)
          \<and> (\<forall>q. q \<noteq> p \<longrightarrow> lookup ?s1 q = lookup s q)
          \<and> length (heap ?s1) = length (heap s) \<and> log ?s1 = log s @ [Ev_set p v]
          \<and> (\<forall>s'. set_binding (Suc k) p v s = Inr s' \<longrightarrow>
                (\<exists>ls. length ls = length (m_refs n)
                   \<and> log s' = log ?s1 @ concat (map2 (\<lambda>r l. Ev_update r # l) (m_refs n) ls)))"
      using run walk [of "m_refs n" ?s1] l1 l2 post by simp
    then show ?thesis by (rule exI [where x = ?s1])
  qed
  then show ?thesis by (simp add: different_with_def different_with_by_def)
qed

theorem different_with_policy_witness:
  "\<not> different_with_by (\<lambda>a b. False) (\<lambda>a b. False) (leaf_node 1 []) 3
   \<and> different_with_by (\<lambda>a b. False) (\<lambda>a b. False)
       ((leaf_node 1 [])\<lparr>m_comp_policy := Comp_Equal\<rparr>) 3
   \<and> lookup (sum_state_policy Comp_Count 1 3 True []) 0 =
       Some ((leaf_node 1 [2])\<lparr>m_comp_policy := Comp_Count\<rparr>)
   \<and> set_binding 3 0 1 (sum_state_policy Comp_Count 1 3 True []) =
       Inr (sum_state_policy Comp_Count 1 3 True
              [Ev_set 0 1, Ev_update 2, Ev_get 0, Ev_get 1, Ev_function 2 [1, 2], Ev_set 2 3])
   \<and> set_binding 3 0 3 (sum_state_policy Comp_Count 1 3 True []) =
       Inr (sum_state_policy Comp_Count 3 5 True
              [Ev_set 0 3, Ev_update 2, Ev_get 0, Ev_get 1, Ev_function 2 [3, 2], Ev_set 2 5])
   \<and> set_binding 3 0 1 (sum_state_policy Comp_NotEqual 1 3 True []) =
       Inr (sum_state_policy Comp_NotEqual 1 3 True [Ev_set 0 1])"
proof -
  let ?n = "(leaf_node 1 [2])\<lparr>m_comp_policy := Comp_Count\<rparr>"
  let ?s = "sum_state_policy Comp_Count 1 3 True []"
  have h: "lookup ?s 0 = Some ?n \<and> m_comp_policy ?n = Comp_Count"
    by (simp add: eval_defs)
  have ops: "\<not> different_with_by (\<lambda>a b. False) (\<lambda>a b. False) (leaf_node 1 []) (3::int)"
    "different_with_by (\<lambda>a b. False) (\<lambda>a b. False)
       ((leaf_node 1 [])\<lparr>m_comp_policy := Comp_Equal\<rparr>) (3::int)"
    using different_with_policy [of "\<lambda>a b. False" "\<lambda>a b. False" "leaf_node 1 []" 3]
    by (simp_all add: leaf_node_def different_with_by_def)
  have k: "(3::nat) = Suc 2" by simp
  have r1: "set_binding 3 0 1 ?s =
       Inr (sum_state_policy Comp_Count 1 3 True
              [Ev_set 0 1, Ev_update 2, Ev_get 0, Ev_get 1, Ev_function 2 [1, 2], Ev_set 2 3])"
    by (simp add: eval_defs eval_nat_numeral)
  have "lookup ?s 0 = Some ?n \<and> m_comp_policy ?n = Comp_Count \<longrightarrow>
        (\<exists>s1. set_binding (Suc 2) 0 1 ?s =
                 foldl (\<lambda>acc ref. case acc of Inl err \<Rightarrow> Inl err | Inr s' \<Rightarrow> update 2 ref s')
                   (Inr s1) (m_refs ?n)
            \<and> lookup s1 0 = Some (?n\<lparr>m_value := 1\<rparr>)
            \<and> (\<forall>q. q \<noteq> 0 \<longrightarrow> lookup s1 q = lookup ?s q)
            \<and> length (heap s1) = length (heap ?s) \<and> log s1 = log ?s @ [Ev_set 0 1]
            \<and> (\<forall>s'. set_binding (Suc 2) 0 1 ?s = Inr s' \<longrightarrow>
                  (\<exists>ls. length ls = length (m_refs ?n)
                     \<and> log s' = log s1 @ concat (map2 (\<lambda>r l. Ev_update r # l) (m_refs ?n) ls))))"
    using different_with_policy
      [of "\<lambda>a b. a \<noteq> b" "\<lambda>a b. a = b" "leaf_node 1 []" 1 ?s 0 ?n 2]
    by (elim conjE)
  from mp [OF this h] obtain s1 where "lookup s1 0 = Some (?n\<lparr>m_value := 1\<rparr>)"
    by (elim exE conjE)
  have r2: "set_binding 3 0 3 ?s =
       Inr (sum_state_policy Comp_Count 3 5 True
              [Ev_set 0 3, Ev_update 2, Ev_get 0, Ev_get 1, Ev_function 2 [3, 2], Ev_set 2 5])"
    by (simp add: eval_defs eval_nat_numeral)
  have r3: "set_binding 3 0 1 (sum_state_policy Comp_NotEqual 1 3 True []) =
       Inr (sum_state_policy Comp_NotEqual 1 3 True [Ev_set 0 1])"
    by (simp add: eval_defs eval_nat_numeral)
  from h ops r1 r2 r3 show ?thesis by blast
qed

text \<open>
  C6, as amended. In the third block of main, whichever operand of the outer \<open>+\<close> is
  built first and with a call depth of five or more, the first read of
  \<open>e = (a + b) + (a + c)\<close> gives \<open>(1 + 2) + (1 + 3) = 7\<close>, and after \<open>a.set(5)\<close> the next
  read gives 15.
\<close>

theorem diamond_scenario:
  "main_block3 (Suc (Suc (Suc (Suc (Suc k))))) left_first = Inr (7, 15)"
  by (cases left_first) (simp_all add: main_block3_def eval_defs)

text \<open>C6 as stated fails: the first read is 7, not 6.\<close>

theorem diamond_first_read_is_not_6:
  "map_sum id fst (main_block3 5 True) = Inr 7
   \<and> map_sum id fst (main_block3 5 False) = Inr 7
   \<and> map_sum id fst (main_block3 5 True) \<noteq> Inr 6"
  by (simp add: main_block3_def eval_defs eval_nat_numeral)

text \<open>
  C7. Let the last handle to a live expression \<open>p\<close> be released (the program holds none
  and no expression has \<open>p\<close> as an input), in a store where every subscriber entry is a
  live dependent and every input is live, with \<open>k\<close> at least the size of the store.
  Then the destructor body returns, and in the store \<open>s1\<close> it leaves every input of \<open>p\<close>
  has lost exactly its entries equal to \<open>p\<close> and nothing else has changed. Only then
  are the handles in \<open>m_arguments\<close> released, on \<open>s1\<close> without \<open>p\<close>; that release
  returns too, and it may destroy inputs that \<open>p\<close> alone held. In the store \<open>s'\<close> at the
  end \<open>p\<close> is gone, what the program holds is still live, an object that is left is as
  it was but for the entries of destroyed objects, which its subscriber list has lost,
  and no destroyed object is in a subscriber list or an input. So a later \<open>set\<close> on any
  node, with any call depth, that returns has entered \<open>update\<close> on no destroyed object,
  and none fails on a pointer to a destroyed object. Removing \<open>p\<close> from a list that does
  not hold it leaves the store unchanged.
\<close>

theorem release_unsubscribes:
  fixes s :: "'v state"
  assumes "lookup s p = Some n" "derived n = Some e"
    and "p \<notin> set holders" "\<not> is_input s p"
    and "wired s" "handles_live s"
    and "length (heap s) \<le> k"
  shows "\<exists>s1 s'.
           process_refs False p (m_arguments e) s = Inr s1
         \<and> (\<forall>q. lookup s1 q =
                (if q \<in> set (m_arguments e)
                 then map_option (\<lambda>n. n\<lparr>m_refs := filter (\<lambda>ref. \<not> (ref = p)) (m_refs n)\<rparr>)
                        (lookup s q)
                 else lookup s q))
         \<and> release k holders [p] s = release (k - 1) holders (m_arguments e) (deallocate p s1)
         \<and> release k holders [p] s = Inr s'
         \<and> lookup s' p = None \<and> log s' = log s \<and> wired s' \<and> handles_live s'
         \<and> (\<forall>x\<in>set holders. lookup s x \<noteq> None \<longrightarrow> lookup s' x \<noteq> None)
         \<and> (\<forall>x n'. lookup s' x = Some n' \<longrightarrow>
               (\<exists>nx. lookup s x = Some nx
                  \<and> n' = nx\<lparr>m_refs := filter (\<lambda>r. \<not> (lookup s' r = None)) (m_refs nx)\<rparr>))
         \<and> (\<forall>x. lookup s' x = None \<longrightarrow> \<not> is_subscriber s' x \<and> \<not> is_input s' x)
         \<and> (\<forall>j q v s''. set_binding j q v s' = Inr s'' \<longrightarrow>
               (\<exists>l. log s'' = log s' @ l \<and> (\<forall>x. lookup s' x = None \<longrightarrow> Ev_update x \<notin> set l)))
         \<and> (\<forall>j q v x. lookup s' x = None \<and> x \<noteq> q \<longrightarrow> set_binding j q v s' \<noteq> Inl (Dangling x))
         \<and> (\<forall>a na. \<forall>s0 :: 'v state. lookup s0 a = Some na \<and> p \<notin> set (m_refs na) \<longrightarrow>
               uninstall_ref p a s0 = Inr s0)"
proof -
  note n = assms(1) and e = assms(2) and hn = assms(3) and ni = assms(4)
    and w = assms(5) and hl = assms(6) and fuel = assms(7)
  from hl n e have al: "\<forall>a\<in>set (m_arguments e). lookup s a \<noteq> None"
    unfolding handles_live_iff by blast
  from process_refs_uninstall [OF al, of p] obtain s1 where
    run: "process_refs False p (m_arguments e) s = Inr s1" and lg: "log s1 = log s"
    and len: "length (heap s1) = length (heap s)"
    and l1: "\<forall>q. lookup s1 q =
               (if q \<in> set (m_arguments e)
                then map_option (\<lambda>n. n\<lparr>m_refs := filter (\<lambda>ref. \<not> (ref = p)) (m_refs n)\<rparr>)
                       (lookup s q)
                else lookup s q)"
    by blast
  let ?s2 = "deallocate p s1"
  from n have "p < length (heap s)" by (rule lookup_Some_less)
  with fuel obtain j where k: "k = Suc j" by (cases k) auto
  have eq: "release k holders [p] s = release (k - 1) holders (m_arguments e) ?s2"
    using n e hn ni run k by simp
  have lk: "\<forall>q. lookup ?s2 q =
              (if q = p then None
               else map_option (\<lambda>n. n\<lparr>m_refs := filter (\<lambda>ref. \<not> (ref = p)) (m_refs n)\<rparr>)
                      (lookup s q))"
    using destroy_lookup [OF w n _ l1] e by simp
  have "length (heap ?s2) = length (heap s)" "log ?s2 = log s"
    using len lg by (simp_all add: deallocate_def)
  from destroy_props [OF w hl n ni hn lk this]
  have rel2: "released holders s ?s2" and cnt: "live_count ?s2 < live_count s" by blast+
  have "p \<notin> set (m_arguments e)" using n e ni by (auto dest: is_input_lookup)
  with al lk have live2: "\<forall>x\<in>set (m_arguments e). lookup ?s2 x \<noteq> None" by auto
  from cnt live_count_le [of s] fuel k have "live_count ?s2 \<le> j" by simp
  from release_ok [OF releasedD(1,2) [OF rel2] live2 this, of holders] obtain s' where
    r2: "release j holders (m_arguments e) ?s2 = Inr s'" and rel': "released holders ?s2 s'"
    by blast
  from rel2 rel' have rel: "released holders s s'" by (rule released_trans)
  from eq r2 k have r: "release k holders [p] s = Inr s'" by simp
  have gone: "lookup s' p = None"
    by (rule releasedD(5) [OF rel']) (simp add: lookup_deallocate)
  note w' = releasedD(1) [OF rel] and hl' = releasedD(2) [OF rel]
  have held: "\<forall>x\<in>set holders. lookup s x \<noteq> None \<longrightarrow> lookup s' x \<noteq> None"
  proof (intro ballI impI)
    fix x
    assume x: "x \<in> set holders" and live: "lookup s x \<noteq> None"
    show "lookup s' x \<noteq> None"
    proof
      assume "lookup s' x = None"
      with x have "lookup s x = None" by (rule releasedD(6) [OF rel])
      with live show False by simp
    qed
  qed
  have left: "\<forall>x n'. lookup s' x = Some n' \<longrightarrow>
               (\<exists>nx. lookup s x = Some nx
                  \<and> n' = nx\<lparr>m_refs := filter (\<lambda>r. \<not> (lookup s' r = None)) (m_refs nx)\<rparr>)"
  proof (intro allI impI)
    fix x n'
    assume "lookup s' x = Some n'"
    from releasedD(7) [OF rel this]
    show "\<exists>nx. lookup s x = Some nx
                  \<and> n' = nx\<lparr>m_refs := filter (\<lambda>r. \<not> (lookup s' r = None)) (m_refs nx)\<rparr>" .
  qed
  have dead: "\<not> is_subscriber s' x \<and> \<not> is_input s' x" if "lookup s' x = None" for x
  proof
    show "\<not> is_subscriber s' x"
      unfolding is_subscriber_iff using that by (blast dest: wired_live [OF w'])
    show "\<not> is_input s' x"
      unfolding is_input_iff using that hl' unfolding handles_live_iff by blast
  qed
  have quiet: "\<exists>l. log s'' = log s' @ l \<and> (\<forall>x. lookup s' x = None \<longrightarrow> Ev_update x \<notin> set l)"
    if "set_binding j q v s' = Inr s''" for j q v s''
  proof -
    from effect_steps(2) [of j q v s'] that obtain l where l: "effect {} {} s' l s''" by blast
    then have "log s'' = log s' @ l" by (simp add: effect_def)
    moreover have "Ev_update x \<notin> set l" if "lookup s' x = None" for x
    proof
      assume "Ev_update x \<in> set l"
      with l have "is_subscriber s' x" by (auto simp: effect_def)
      with dead [OF that] show False by simp
    qed
    ultimately show ?thesis by blast
  qed
  have safe: "set_binding j q v s' \<noteq> Inl (Dangling x)" if "lookup s' x = None \<and> x \<noteq> q" for j q v x
  proof
    assume "set_binding j q v s' = Inl (Dangling x)"
    with dangling_steps(2) [of j q v s' x] have "reach {q} s' x" by simp
    with that dead [of x] show False by (simp add: reach_def)
  qed
  have idem: "\<forall>a na. \<forall>s0 :: 'v state. lookup s0 a = Some na \<and> p \<notin> set (m_refs na) \<longrightarrow>
                 uninstall_ref p a s0 = Inr s0"
    by (auto intro: uninstall_ref_absent)
  have "process_refs False p (m_arguments e) s = Inr s1
         \<and> (\<forall>q. lookup s1 q =
                (if q \<in> set (m_arguments e)
                 then map_option (\<lambda>n. n\<lparr>m_refs := filter (\<lambda>ref. \<not> (ref = p)) (m_refs n)\<rparr>)
                        (lookup s q)
                 else lookup s q))
         \<and> release k holders [p] s = release (k - 1) holders (m_arguments e) (deallocate p s1)
         \<and> release k holders [p] s = Inr s'
         \<and> lookup s' p = None \<and> log s' = log s \<and> wired s' \<and> handles_live s'
         \<and> (\<forall>x\<in>set holders. lookup s x \<noteq> None \<longrightarrow> lookup s' x \<noteq> None)
         \<and> (\<forall>x n'. lookup s' x = Some n' \<longrightarrow>
               (\<exists>nx. lookup s x = Some nx
                  \<and> n' = nx\<lparr>m_refs := filter (\<lambda>r. \<not> (lookup s' r = None)) (m_refs nx)\<rparr>))
         \<and> (\<forall>x. lookup s' x = None \<longrightarrow> \<not> is_subscriber s' x \<and> \<not> is_input s' x)
         \<and> (\<forall>j q v s''. set_binding j q v s' = Inr s'' \<longrightarrow>
               (\<exists>l. log s'' = log s' @ l \<and> (\<forall>x. lookup s' x = None \<longrightarrow> Ev_update x \<notin> set l)))
         \<and> (\<forall>j q v x. lookup s' x = None \<and> x \<noteq> q \<longrightarrow> set_binding j q v s' \<noteq> Inl (Dangling x))
         \<and> (\<forall>a na. \<forall>s0 :: 'v state. lookup s0 a = Some na \<and> p \<notin> set (m_refs na) \<longrightarrow>
               uninstall_ref p a s0 = Inr s0)"
    using run l1 eq r gone releasedD(3) [OF rel] w' hl' held left dead quiet safe idem
    by (intro conjI allI impI) (assumption | blast)+
  then show ?thesis by (intro exI)
qed

theorem release_unsubscribes_witness:
  "construct_diamond 5 = Inr (heap diamond_state)
   \<and> lookup diamond_state 5 = Some (plus_node 7 [] [3, 4] True)
   \<and> 5 \<notin> set [0, 1, 2 :: addr]
   \<and> \<not> is_input diamond_state 5
   \<and> wired diamond_state \<and> handles_live diamond_state
   \<and> length (heap diamond_state) \<le> 6
   \<and> release 6 [0, 1, 2] [5] diamond_state =
       Inr \<lparr>heap = [Some (leaf_node 1 []), Some (leaf_node 2 []), Some (leaf_node 3 []),
                    None, None, None], log = []\<rparr>
   \<and> set_binding 1 0 5
        \<lparr>heap = [Some (leaf_node 1 []), Some (leaf_node 2 []), Some (leaf_node 3 []),
                 None, None, None], log = []\<rparr> =
       Inr \<lparr>heap = [Some (leaf_node 5 []), Some (leaf_node 2 []), Some (leaf_node 3 []),
                    None, None, None], log = [Ev_set 0 5]\<rparr>
   \<and> \<not> (\<exists>j q v x.
          lookup \<lparr>heap = [Some (leaf_node 1 []), Some (leaf_node 2 []), Some (leaf_node 3 []),
                          None, None, None], log = []\<rparr> x = None
          \<and> x \<noteq> q
          \<and> set_binding j q v
               \<lparr>heap = [Some (leaf_node 1 []), Some (leaf_node 2 []), Some (leaf_node 3 []),
                        None, None, None], log = []\<rparr> = Inl (Dangling x))
   \<and> release 3 [0, 1] [2] sum_constructed =
       Inr \<lparr>heap = [Some (leaf_node 1 []), Some (leaf_node 2 []), None],
            log = log sum_constructed\<rparr>"
proof -
  let ?e = "\<lparr>m_eval_policy = Eval_Instant, m_function = std_plus, m_arguments = [3, 4],
             m_dirty = True\<rparr>"
  let ?d = "\<lparr>heap = [Some (leaf_node 1 []), Some (leaf_node 2 []), Some (leaf_node 3 []),
                    None, None, None], log = []\<rparr> :: int state"
  have c: "construct_diamond 5 = Inr (heap diamond_state)"
    by (simp add: construct_diamond_def eval_defs eval_nat_numeral)
  have h: "lookup diamond_state 5 = Some (plus_node 7 [] [3, 4] True)"
    "derived (plus_node 7 [] [3, 4] True) = Some ?e"
    "5 \<notin> set [0, 1, 2 :: addr]" "\<not> is_input diamond_state 5"
    "wired diamond_state" "handles_live diamond_state"
    "length (heap diamond_state) \<le> 6"
    by (simp_all add: wired_def handles_live_def eval_defs)
  have r: "release 6 [0, 1, 2] [5] diamond_state = Inr ?d"
    by (simp add: eval_defs eval_nat_numeral)
  have u: "set_binding 1 0 5 ?d =
       Inr \<lparr>heap = [Some (leaf_node 5 []), Some (leaf_node 2 []), Some (leaf_node 3 []),
                    None, None, None], log = [Ev_set 0 5]\<rparr>"
    by (simp add: eval_defs)
  have r': "release 3 [0, 1] [2] sum_constructed =
       Inr \<lparr>heap = [Some (leaf_node 1 []), Some (leaf_node 2 []), None],
            log = log sum_constructed\<rparr>"
    by (simp add: eval_defs eval_nat_numeral)
  from release_unsubscribes [OF h] obtain s' where
    s': "release 6 [0, 1, 2] [5] diamond_state = Inr s'"
    and safe: "\<forall>j q v x. lookup s' x = None \<and> x \<noteq> q \<longrightarrow> set_binding j q v s' \<noteq> Inl (Dangling x)"
    by (elim exE conjE)
  from s' r have "s' = ?d" by simp
  with safe have "\<not> (\<exists>j q v x. lookup ?d x = None \<and> x \<noteq> q
                       \<and> set_binding j q v ?d = Inl (Dangling x))"
    by blast
  with c h(1,3-7) r u r' show ?thesis by blast
qed

text \<open>
  C8. The constructor of an expression, given handles to objects of the store and a
  store in which no handle points at the address of the new object, leaves the new
  expression with policy \<open>Instant\<close> and its dirty flag set. Any number of
  notifications (\<open>notify\<close> on any list \<open>rs\<close>, such as \<open>p'\<close> several times) leaves a set
  flag of \<open>p'\<close> set unless \<open>get\<close> was entered on \<open>p'\<close> meanwhile, which cannot happen when
  \<open>p'\<close> is the input of no expression. \<open>get\<close> on an expression with the flag set runs
  \<open>dispatch\<close>, then \<open>set\<close>, then clears the flag, once each, and when it returns the flag
  is clear.
\<close>

theorem dirty_until_first_get:
  fixes s :: "'v::zero state"
  shows "((\<forall>a\<in>set args. a < length (heap s)) \<and> \<not> is_input s (length (heap s))
            \<and> new_TypedBindedExpr k f args s = Inr (s1, p)
          \<longrightarrow> p = length (heap s) \<and> is_dirty s1 p \<and> read_eval_policy p s1 = Inr Eval_Instant)
         \<and> (is_dirty t p' \<and> notify j rs t = Inr t'
              \<longrightarrow> (\<exists>l. log t' = log t @ l \<and> (is_dirty t' p' \<or> Ev_get p' \<in> set l))
                  \<and> (\<not> is_input t p' \<longrightarrow> is_dirty t' p'))
         \<and> (lookup u q = Some n \<and> derived n = Some e \<and> m_dirty e
              \<longrightarrow> get (Suc i) q u =
                    bind_result (dispatch i q (m_arguments e) [] (record_event (Ev_get q) u))
                      (\<lambda>(u1, v). bind_result (set_binding i q v u1)
                      (\<lambda>u2. bind_result (assign_dirty q False u2) (TypedBinding_get q)))
                  \<and> (\<forall>u' v. get (Suc i) q u = Inr (u', v) \<longrightarrow> \<not> is_dirty u' q))"
proof -
  have a: "p = length (heap s) \<and> is_dirty s1 p \<and> read_eval_policy p s1 = Inr Eval_Instant"
    if "(\<forall>a\<in>set args. a < length (heap s)) \<and> \<not> is_input s (length (heap s))
          \<and> new_TypedBindedExpr k f args s = Inr (s1, p)"
    using that constructed_dirty [of args s k f s1 p] by blast
  have b: "(\<exists>l. log t' = log t @ l \<and> (is_dirty t' p' \<or> Ev_get p' \<in> set l))
           \<and> (\<not> is_input t p' \<longrightarrow> is_dirty t' p')"
    if "is_dirty t p' \<and> notify j rs t = Inr t'"
    using that notify_keeps_dirty [of t p' j rs t'] by blast
  have c: "get (Suc i) q u =
             bind_result (dispatch i q (m_arguments e) [] (record_event (Ev_get q) u))
               (\<lambda>(u1, v). bind_result (set_binding i q v u1)
               (\<lambda>u2. bind_result (assign_dirty q False u2) (TypedBinding_get q)))"
    if "lookup u q = Some n \<and> derived n = Some e \<and> m_dirty e"
    using that get_dirty [of u q n e i] by blast
  have d: "\<forall>u' v. get (Suc i) q u = Inr (u', v) \<longrightarrow> \<not> is_dirty u' q"
  proof (intro allI impI)
    fix u' v
    assume g: "get (Suc i) q u = Inr (u', v)"
    from get_post [OF g] show "\<not> is_dirty u' q" by blast
  qed
  from a b c d show ?thesis by blast
qed

theorem dirty_until_first_get_witness:
  "0 < length (heap two_leaves) \<and> 1 < length (heap two_leaves)
   \<and> \<not> is_input two_leaves (length (heap two_leaves))
   \<and> new_TypedBindedExpr 3 std_plus [0, 1] two_leaves = Inr (sum_constructed, 2)
   \<and> is_dirty sum_constructed 2 \<and> read_eval_policy 2 sum_constructed = Inr Eval_Instant
   \<and> notify 2 [2, 2] sum_constructed =
       Inr (sum_state 1 3 Eval_Instant True
              (log sum_constructed
               @ [Ev_update 2, Ev_get 0, Ev_get 1, Ev_function 2 [1, 2], Ev_set 2 3,
                  Ev_update 2, Ev_get 0, Ev_get 1, Ev_function 2 [1, 2], Ev_set 2 3]))
   \<and> \<not> is_input sum_constructed 2
   \<and> lookup sum_constructed 2 = Some (sum_node 3 Eval_Instant True)
   \<and> get (Suc 1) 2 sum_constructed =
       Inr (sum_state 1 3 Eval_Instant False
              (log sum_constructed
               @ [Ev_get 2, Ev_get 0, Ev_get 1, Ev_function 2 [1, 2], Ev_set 2 3]), 3)
   \<and> \<not> is_dirty (sum_state 1 3 Eval_Instant False
              (log sum_constructed
               @ [Ev_get 2, Ev_get 0, Ev_get 1, Ev_function 2 [1, 2], Ev_set 2 3])) 2"
proof -
  let ?e = "\<lparr>m_eval_policy = Eval_Instant, m_function = std_plus, m_arguments = [0, 1],
             m_dirty = True\<rparr>"
  let ?t' = "sum_state 1 3 Eval_Instant True
              (log sum_constructed
               @ [Ev_update 2, Ev_get 0, Ev_get 1, Ev_function 2 [1, 2], Ev_set 2 3,
                  Ev_update 2, Ev_get 0, Ev_get 1, Ev_function 2 [1, 2], Ev_set 2 3])"
  let ?u' = "sum_state 1 3 Eval_Instant False
              (log sum_constructed
               @ [Ev_get 2, Ev_get 0, Ev_get 1, Ev_function 2 [1, 2], Ev_set 2 3])"
  have a: "(\<forall>a\<in>set [0, 1]. a < length (heap two_leaves))
             \<and> \<not> is_input two_leaves (length (heap two_leaves))
             \<and> new_TypedBindedExpr 3 std_plus [0, 1] two_leaves = Inr (sum_constructed, 2)"
    by (simp add: is_input_def eval_defs eval_nat_numeral)
  have b: "notify 2 [2, 2] sum_constructed = Inr ?t'"
    by (simp add: eval_defs eval_nat_numeral)
  have c: "lookup sum_constructed 2 = Some (sum_node 3 Eval_Instant True)
           \<and> derived (sum_node 3 Eval_Instant True) = Some ?e \<and> m_dirty ?e"
    by (simp add: eval_defs)
  have g: "get (Suc 1) 2 sum_constructed = Inr (?u', 3)"
    by (simp add: eval_defs)
  have noin: "\<not> is_input sum_constructed 2"
    by (simp add: is_input_def eval_defs)
  note inst = dirty_until_first_get
    [of "[0, 1]" two_leaves 3 std_plus sum_constructed 2
        sum_constructed 2 2 "[2, 2]" ?t'
        sum_constructed 2 "sum_node 3 Eval_Instant True" ?e 1]
  from inst a have d: "is_dirty sum_constructed 2"
    "read_eval_policy 2 sum_constructed = Inr Eval_Instant" by blast+
  from inst c g have "\<not> is_dirty ?u' 2" by blast
  moreover from a have "0 < length (heap two_leaves)" "1 < length (heap two_leaves)"
    by simp_all
  ultimately show ?thesis using a b c g noin d by blast
qed

text \<open>
  C9. With a call depth of one or more, the constructor of a leaf returns, and \<open>get\<close> on
  the new leaf then returns the initial value \<open>v\<close>, also for \<open>v\<close> the value-initialised
  \<open>T{}\<close>, where \<open>set\<close> stores nothing.
\<close>

theorem new_TypedBindedValue_get:
  "\<exists>s' s''. new_TypedBindedValue (Suc k) v s = Inr (s', length (heap s))
     \<and> get (Suc j) (length (heap s)) s' = Inr (s'', v)
     \<and> new_TypedBindedValue (Suc k) 0 s =
         Inr (s\<lparr>heap := heap s @ [Some \<lparr>m_value = 0, m_comp_policy = Comp_NotEqual,
                                         m_refs = [], derived = None\<rparr>],
                log := log s @ [Ev_set (length (heap s)) 0]\<rparr>, length (heap s))"
  by (cases "v = 0")
     (simp_all add: new_TypedBindedValue_def alloc_def lookup_def different_with_def different_with_by_def
        store_def record_event_def TypedBinding_get_def)

text \<open>
  C10. When \<open>get\<close> on an expression has returned \<open>v1\<close> and left the store \<open>s1\<close>, the next
  \<open>get\<close> on it, with any call depth of one or more, returns \<open>v1\<close> again and leaves
  \<open>s1\<close> with one more history entry, that of this call: no input is read, no function
  is called, \<open>set\<close> is not called and nothing is notified. This holds under either
  evaluation policy, so under \<open>Lazy\<close>.
\<close>

theorem get_twice:
  assumes "lookup s p = Some n" "derived n = Some e" "get (Suc k) p s = Inr (s1, v1)"
  shows "get (Suc j) p s1 = Inr (s1\<lparr>log := log s1 @ [Ev_get p]\<rparr>, v1)"
proof -
  from get_expr_post [OF assms] obtain n' e' where
    "lookup s1 p = Some n'" "derived n' = Some e'" "\<not> m_dirty e'" "m_value n' = v1"
    by blast
  then show ?thesis by (simp add: TypedBinding_get_def record_event_def)
qed

theorem get_twice_witness:
  "lookup (sum_state 3 3 Eval_Lazy True []) 2 = Some (sum_node 3 Eval_Lazy True)
   \<and> get (Suc 1) 2 (sum_state 3 3 Eval_Lazy True []) =
       Inr (sum_state 3 5 Eval_Lazy False
              [Ev_get 2, Ev_get 0, Ev_get 1, Ev_function 2 [3, 2], Ev_set 2 5], 5)
   \<and> get (Suc 0) 2 (sum_state 3 5 Eval_Lazy False
              [Ev_get 2, Ev_get 0, Ev_get 1, Ev_function 2 [3, 2], Ev_set 2 5]) =
       Inr (sum_state 3 5 Eval_Lazy False
              [Ev_get 2, Ev_get 0, Ev_get 1, Ev_function 2 [3, 2], Ev_set 2 5, Ev_get 2], 5)"
proof -
  let ?e = "\<lparr>m_eval_policy = Eval_Lazy, m_function = std_plus, m_arguments = [0, 1],
             m_dirty = True\<rparr>"
  have h: "lookup (sum_state 3 3 Eval_Lazy True []) 2 = Some (sum_node 3 Eval_Lazy True)"
    "derived (sum_node 3 Eval_Lazy True) = Some ?e"
    by (simp_all add: lookup_def sum_state_def sum_node_def)
  have g: "get (Suc 1) 2 (sum_state 3 3 Eval_Lazy True []) =
       Inr (sum_state 3 5 Eval_Lazy False
              [Ev_get 2, Ev_get 0, Ev_get 1, Ev_function 2 [3, 2], Ev_set 2 5], 5)"
    by (simp add: eval_defs)
  from get_twice [OF h g, of 0] h(1) g show ?thesis
    by (simp add: sum_state_def)
qed

end
